theory Spec2Isabelle
  imports Main
begin

section \<open>Byte pair encoding: the encoder of \<^verbatim>\<open>bpe_encoder.py\<close>\<close>

text \<open>
  Token ids are Python integers (\<open>int\<close>), bytes are the values \<open>0..255\<close> (\<open>nat\<close>), a
  Python \<open>str\<close> is the list of its code points (\<open>nat\<close>, each below \<open>0x110000\<close>), and the
  strings that are keys of the persisted file are \<open>string\<close>s. A Python \<open>dict\<close> whose
  iteration order matters is an association list in insertion order; the vocabulary, which
  is only ever looked up, is a map. Every exception the code can raise is a value of
  \<open>error\<close>.
\<close>

datatype error = KeyError int | ValueError | UnicodeEncodeError nat

type_synonym pair = "int \<times> int"
type_synonym merges = "(pair \<times> int) list"
type_synonym vocab = "int \<rightharpoonup> nat list"

record encoder =
  merges :: merges
  vocab_size :: int
  vocab :: vocab

subsection \<open>Dictionaries in insertion order\<close>

text \<open>\<open>d.get(k)\<close> and \<open>d[k] = v\<close>: an existing key keeps its place and takes the new value,
  a new key goes to the end.\<close>

definition dict_get :: "('k \<times> 'v) list \<Rightarrow> 'k \<Rightarrow> 'v option" where
  "dict_get d k = map_of d k"

fun dict_set :: "('k \<times> 'v) list \<Rightarrow> 'k \<Rightarrow> 'v \<Rightarrow> ('k \<times> 'v) list" where
  "dict_set [] k v = [(k, v)]"
| "dict_set ((k', v') # d) k v =
     (if k' = k then (k, v) # d else (k', v') # dict_set d k v)"

subsection \<open>\<open>_build_vocab\<close>\<close>

text \<open>\<open>vocab = {idx: bytes([idx]) for idx in range(256)}\<close>\<close>

definition base_vocab :: vocab where
  "base_vocab = (\<lambda>idx. if 0 \<le> idx \<and> idx < 256 then Some [nat idx] else None)"

text \<open>\<open>sorted(self.merges.items(), key=lambda x: x[1])\<close>: Python's sort is stable and
  ascending, as insertion sort by key is.\<close>

definition sorted_merges :: "merges \<Rightarrow> merges" where
  "sorted_merges ms = sort_key snd ms"

text \<open>The loop \<open>vocab[idx] = vocab[p0] + vocab[p1]\<close>; a missing operand raises
  \<open>KeyError\<close>, the left one first.\<close>

fun build_loop :: "vocab \<Rightarrow> merges \<Rightarrow> error + vocab" where
  "build_loop v [] = Inr v"
| "build_loop v (((p0, p1), idx) # rest) =
     (case v p0 of
        None \<Rightarrow> Inl (KeyError p0)
      | Some b0 \<Rightarrow>
          (case v p1 of
             None \<Rightarrow> Inl (KeyError p1)
           | Some b1 \<Rightarrow> build_loop (v(idx \<mapsto> b0 @ b1)) rest))"

definition build_vocab :: "merges \<Rightarrow> error + vocab" where
  "build_vocab ms = build_loop base_vocab (sorted_merges ms)"

text \<open>\<open>__init__\<close>: store the table and the size, then build the vocabulary.\<close>

definition BPEEncoder :: "merges \<Rightarrow> int \<Rightarrow> error + encoder" where
  "BPEEncoder ms vs =
     (case build_vocab ms of
        Inl e \<Rightarrow> Inl e
      | Inr v \<Rightarrow> Inr \<lparr>merges = ms, vocab_size = vs, vocab = v\<rparr>)"

subsection \<open>\<open>_get_stats\<close> and \<open>_merge\<close>\<close>

text \<open>\<open>for pair in zip(ids, ids[1:]): counts[pair] = counts.get(pair, 0) + 1\<close>\<close>

fun stats_loop :: "(pair \<times> nat) list \<Rightarrow> pair list \<Rightarrow> (pair \<times> nat) list" where
  "stats_loop counts [] = counts"
| "stats_loop counts (p # ps) =
     stats_loop
       (dict_set counts p ((case dict_get counts p of None \<Rightarrow> 0 | Some c \<Rightarrow> c) + 1)) ps"

definition get_stats :: "int list \<Rightarrow> (pair \<times> nat) list" where
  "get_stats ids = stats_loop [] (zip ids (tl ids))"

text \<open>The \<open>while i < len(ids)\<close> loop of \<open>_merge\<close>, with its index and its output list.
  Under \<open>i < len(ids)\<close> the test \<open>i < len(ids) - 1\<close> has no truncation.\<close>

function merge_loop :: "int list \<Rightarrow> pair \<Rightarrow> int \<Rightarrow> nat \<Rightarrow> int list \<Rightarrow> int list" where
  "merge_loop ids pair idx i newids =
     (if i < length ids then
        (if i < length ids - 1 \<and> ids ! i = fst pair \<and> ids ! (i + 1) = snd pair
         then merge_loop ids pair idx (i + 2) (newids @ [idx])
         else merge_loop ids pair idx (i + 1) (newids @ [ids ! i]))
      else newids)"
  by pat_completeness auto
termination
  by (relation "measure (\<lambda>(ids, pair, idx, i, newids). length ids - i)") auto

declare merge_loop.simps [simp del]

definition merge :: "int list \<Rightarrow> pair \<Rightarrow> int \<Rightarrow> int list" where
  "merge ids pair idx = merge_loop ids pair idx 0 []"

text \<open>The same scan by recursion on the list: at a match the pair is replaced and the
  scan resumes two positions later, otherwise one token is copied and the scan resumes one
  position later.\<close>

fun replace_pairs :: "int list \<Rightarrow> pair \<Rightarrow> int \<Rightarrow> int list" where
  "replace_pairs (a # b # rest) pair idx =
     (if a = fst pair \<and> b = snd pair then idx # replace_pairs rest pair idx
      else a # replace_pairs (b # rest) pair idx)"
| "replace_pairs [a] pair idx = [a]"
| "replace_pairs [] pair idx = []"

lemma merge_loop_replace_pairs:
  "merge_loop ids pair idx i newids = newids @ replace_pairs (drop i ids) pair idx"
proof (induction ids pair idx i newids rule: merge_loop.induct)
  case (1 ids pair idx i newids)
  show ?case
  proof (cases "i < length ids")
    case False
    then show ?thesis by (simp add: merge_loop.simps [of ids pair idx i newids])
  next
    case inside: True
    then have d0: "drop i ids = ids ! i # drop (Suc i) ids"
      by (simp add: Cons_nth_drop_Suc)
    show ?thesis
    proof (cases "i < length ids - 1 \<and> ids ! i = fst pair \<and> ids ! (i + 1) = snd pair")
      case True
      then have si: "Suc i < length ids" by arith
      have d1: "drop (Suc i) ids = ids ! Suc i # drop (Suc (Suc i)) ids"
        by (rule Cons_nth_drop_Suc [OF si, symmetric])
      have "merge_loop ids pair idx i newids = merge_loop ids pair idx (i + 2) (newids @ [idx])"
        using inside True by (subst merge_loop.simps) simp
      also have "\<dots> = (newids @ [idx]) @ replace_pairs (drop (i + 2) ids) pair idx"
        using "1.IH"(1) [OF inside True] .
      also have "\<dots> = newids @ replace_pairs (drop i ids) pair idx"
        using True by (simp add: d0 d1)
      finally show ?thesis .
    next
      case False
      have "merge_loop ids pair idx i newids = merge_loop ids pair idx (i + 1) (newids @ [ids ! i])"
        using inside False by (subst merge_loop.simps) auto
      also have "\<dots> = (newids @ [ids ! i]) @ replace_pairs (drop (i + 1) ids) pair idx"
        using "1.IH"(2) [OF inside False] .
      also have "\<dots> = newids @ replace_pairs (drop i ids) pair idx"
      proof (cases "drop (Suc i) ids")
        case Nil
        then show ?thesis by (simp add: d0)
      next
        case (Cons b rest)
        then have si: "Suc i < length ids" by (cases "Suc i < length ids") auto
        from Cons Cons_nth_drop_Suc [OF si] have "b = ids ! Suc i" by simp
        moreover from si have "i < length ids - 1" by arith
        ultimately show ?thesis using False Cons by (auto simp: d0)
      qed
      finally show ?thesis .
    qed
  qed
qed

lemma merge_replace_pairs: "merge ids pair idx = replace_pairs ids pair idx"
  by (simp add: merge_def merge_loop_replace_pairs)

lemma length_replace_pairs_le: "length (replace_pairs ids pair idx) \<le> length ids"
  by (induction ids pair idx rule: replace_pairs.induct) auto

lemma length_replace_pairs_less:
  "pair \<in> set (zip ids (tl ids)) \<Longrightarrow> length (replace_pairs ids pair idx) < length ids"
proof (induction ids pair idx rule: replace_pairs.induct)
  case (1 a b rest pair idx)
  show ?case
  proof (cases "a = fst pair \<and> b = snd pair")
    case True
    then show ?thesis
      using length_replace_pairs_le [of rest pair idx] by simp
  next
    case False
    with "1.prems" have "pair \<in> set (zip (b # rest) (tl (b # rest)))"
      by (cases pair) auto
    with False "1.IH"(2) show ?thesis by auto
  qed
qed simp_all

lemma dict_set_keys: "fst ` set (dict_set d k v) = insert k (fst ` set d)"
  by (induction d k v rule: dict_set.induct) auto

lemma stats_loop_keys: "fst ` set (stats_loop counts ps) = fst ` set counts \<union> set ps"
  by (induction counts ps rule: stats_loop.induct) (auto simp: dict_set_keys)

lemma get_stats_keys: "fst ` set (get_stats ids) = set (zip ids (tl ids))"
  by (simp add: get_stats_def stats_loop_keys)

subsection \<open>\<open>encode\<close>\<close>

text \<open>The key of \<open>min\<close> is \<open>self.merges.get(p, float("inf"))\<close>: an integer, or infinity
  (\<open>None\<close>) for a pair with no rule. \<open>rank_less\<close> is Python's \<open><\<close> on such keys.\<close>

fun rank_less :: "int option \<Rightarrow> int option \<Rightarrow> bool" where
  "rank_less (Some a) (Some b) = (a < b)"
| "rank_less (Some a) None = True"
| "rank_less None _ = False"

text \<open>\<open>min(xs, key=f)\<close> keeps the first element and replaces it only by a strictly
  smaller one; on no element it raises \<open>ValueError\<close>.\<close>

fun min_loop :: "('a \<Rightarrow> int option) \<Rightarrow> 'a \<Rightarrow> 'a list \<Rightarrow> 'a" where
  "min_loop key best [] = best"
| "min_loop key best (x # xs) =
     min_loop key (if rank_less (key x) (key best) then x else best) xs"

definition py_min :: "('a \<Rightarrow> int option) \<Rightarrow> 'a list \<Rightarrow> error + 'a" where
  "py_min key xs = (case xs of [] \<Rightarrow> Inl ValueError | x # rest \<Rightarrow> Inr (min_loop key x rest))"

text \<open>One run of the body of \<open>while len(tokens) >= 2\<close>: \<open>Break\<close> when the selected pair
  has no rule, otherwise the tokens after the replacement.\<close>

datatype pass = Break | Next "int list"

definition encode_pass :: "merges \<Rightarrow> int list \<Rightarrow> error + pass" where
  "encode_pass ms tokens =
     (let stats = get_stats tokens in
      case py_min (\<lambda>p. dict_get ms p) (map fst stats) of
        Inl e \<Rightarrow> Inl e
      | Inr pair \<Rightarrow>
          (case dict_get ms pair of
             None \<Rightarrow> Inr Break
           | Some idx \<Rightarrow> Inr (Next (merge tokens pair idx))))"

lemma min_loop_mem: "min_loop key best xs \<in> set (best # xs)"
  by (induction key best xs rule: min_loop.induct) auto

lemma py_min_mem: "py_min key xs = Inr p \<Longrightarrow> p \<in> set xs"
  using min_loop_mem by (fastforce simp: py_min_def split: list.splits)

lemma encode_pass_Next_selected:
  assumes "encode_pass ms tokens = Inr (Next tokens')"
  shows "\<exists>pair idx. pair \<in> set (zip tokens (tl tokens)) \<and> dict_get ms pair = Some idx
            \<and> tokens' = replace_pairs tokens pair idx"
proof -
  from assms obtain pair idx where
    m: "py_min (\<lambda>p. dict_get ms p) (map fst (get_stats tokens)) = Inr pair"
    and g: "dict_get ms pair = Some idx" and t: "tokens' = merge tokens pair idx"
    by (auto simp: encode_pass_def Let_def split: sum.splits option.splits)
  from py_min_mem [OF m] have "pair \<in> set (zip tokens (tl tokens))"
    by (simp add: get_stats_keys)
  with g t show ?thesis unfolding merge_replace_pairs by blast
qed

lemma encode_pass_shorter:
  "encode_pass ms tokens = Inr (Next tokens') \<Longrightarrow> length tokens' < length tokens"
  using encode_pass_Next_selected length_replace_pairs_less by blast

function encode_loop :: "merges \<Rightarrow> int list \<Rightarrow> error + int list" where
  "encode_loop ms tokens =
     (if length tokens \<ge> 2 then
        (case encode_pass ms tokens of
           Inl e \<Rightarrow> Inl e
         | Inr Break \<Rightarrow> Inr tokens
         | Inr (Next tokens') \<Rightarrow> encode_loop ms tokens')
      else Inr tokens)"
  by pat_completeness auto
termination
  by (relation "measure (\<lambda>(ms, tokens). length tokens)") (auto simp: encode_pass_shorter)

declare encode_loop.simps [simp del]

text \<open>The number of times the body of the loop runs, the run that ends in \<open>break\<close>
  counted too.\<close>

function encode_passes :: "merges \<Rightarrow> int list \<Rightarrow> nat" where
  "encode_passes ms tokens =
     (if length tokens \<ge> 2 then
        (case encode_pass ms tokens of
           Inl e \<Rightarrow> 1
         | Inr Break \<Rightarrow> 1
         | Inr (Next tokens') \<Rightarrow> 1 + encode_passes ms tokens')
      else 0)"
  by pat_completeness auto
termination
  by (relation "measure (\<lambda>(ms, tokens). length tokens)") (auto simp: encode_pass_shorter)

declare encode_passes.simps [simp del]

subsection \<open>Python's UTF-8 codec\<close>

text \<open>\<open>text.encode("utf-8")\<close> on the code points of a \<open>str\<close>: one to four bytes per code
  point; a surrogate raises \<open>UnicodeEncodeError\<close>.\<close>

definition is_surrogate :: "nat \<Rightarrow> bool" where
  "is_surrogate c = (0xD800 \<le> c \<and> c \<le> 0xDFFF)"

definition utf8_encode_char :: "nat \<Rightarrow> error + nat list" where
  "utf8_encode_char c =
     (if c < 0x80 then Inr [c]
      else if c < 0x800 then Inr [0xC0 + c div 64, 0x80 + c mod 64]
      else if is_surrogate c then Inl (UnicodeEncodeError c)
      else if c < 0x10000 then
        Inr [0xE0 + c div 4096, 0x80 + c div 64 mod 64, 0x80 + c mod 64]
      else
        Inr [0xF0 + c div 262144, 0x80 + c div 4096 mod 64, 0x80 + c div 64 mod 64,
             0x80 + c mod 64])"

fun utf8_encode :: "nat list \<Rightarrow> error + nat list" where
  "utf8_encode [] = Inr []"
| "utf8_encode (c # cs) =
     (case utf8_encode_char c of
        Inl e \<Rightarrow> Inl e
      | Inr bs \<Rightarrow> (case utf8_encode cs of Inl e \<Rightarrow> Inl e | Inr rest \<Rightarrow> Inr (bs @ rest)))"

text \<open>\<open>tokens.decode("utf-8", errors="replace")\<close>, as CPython's decoder does it: an
  invalid start byte, or a start byte whose next byte cannot follow it, is replaced alone
  by U+FFFD; a sequence cut short by a byte that is no continuation byte is replaced, up to
  that byte, by one U+FFFD; a sequence cut short by the end of the data is replaced by one
  U+FFFD. Decoding resumes right after the replaced bytes.\<close>

definition is_continuation :: "nat \<Rightarrow> bool" where
  "is_continuation b = (0x80 \<le> b \<and> b < 0xC0)"

definition replacement :: nat where
  "replacement = 0xFFFD"

fun utf8_decode :: "nat list \<Rightarrow> nat list" where
  "utf8_decode [] = []"
| "utf8_decode (b0 # bs) =
     (if b0 < 0x80 then b0 # utf8_decode bs
      else if b0 < 0xC2 then replacement # utf8_decode bs
      else if b0 < 0xE0 then
        (case bs of
           [] \<Rightarrow> [replacement]
         | b1 # bs1 \<Rightarrow>
             if \<not> is_continuation b1 then replacement # utf8_decode bs
             else (b0 * 64 + b1 - (0xC0 * 64 + 0x80)) # utf8_decode bs1)
      else if b0 < 0xF0 then
        (case bs of
           [] \<Rightarrow> [replacement]
         | b1 # bs1 \<Rightarrow>
             if \<not> is_continuation b1 \<or> (if b1 < 0xA0 then b0 = 0xE0 else b0 = 0xED)
             then replacement # utf8_decode bs
             else
               (case bs1 of
                  [] \<Rightarrow> [replacement]
                | b2 # bs2 \<Rightarrow>
                    if \<not> is_continuation b2 then replacement # utf8_decode bs1
                    else (b0 * 4096 + b1 * 64 + b2 - (0xE0 * 4096 + 0x80 * 64 + 0x80))
                           # utf8_decode bs2))
      else if b0 < 0xF5 then
        (case bs of
           [] \<Rightarrow> [replacement]
         | b1 # bs1 \<Rightarrow>
             if \<not> is_continuation b1 \<or> (if b1 < 0x90 then b0 = 0xF0 else b0 = 0xF4)
             then replacement # utf8_decode bs
             else
               (case bs1 of
                  [] \<Rightarrow> [replacement]
                | b2 # bs2 \<Rightarrow>
                    if \<not> is_continuation b2 then replacement # utf8_decode bs1
                    else
                      (case bs2 of
                         [] \<Rightarrow> [replacement]
                       | b3 # bs3 \<Rightarrow>
                           if \<not> is_continuation b3 then replacement # utf8_decode bs2
                           else (b0 * 262144 + b1 * 4096 + b2 * 64 + b3
                                   - (0xF0 * 262144 + 0x80 * 4096 + 0x80 * 64 + 0x80))
                                  # utf8_decode bs3)))
      else replacement # utf8_decode bs)"

declare utf8_decode.simps(2) [simp del]

subsection \<open>\<open>encode\<close> and \<open>decode\<close> of the encoder\<close>

text \<open>\<open>tokens = list(text.encode("utf-8"))\<close>, then the merge loop.\<close>

definition encode :: "encoder \<Rightarrow> nat list \<Rightarrow> error + int list" where
  "encode enc text =
     (case utf8_encode text of
        Inl e \<Rightarrow> Inl e
      | Inr bs \<Rightarrow> encode_loop (merges enc) (map int bs))"

text \<open>\<open>b"".join(self._vocab[idx] for idx in ids)\<close>: the first id with no entry raises
  \<open>KeyError\<close>.\<close>

fun join_vocab :: "vocab \<Rightarrow> int list \<Rightarrow> error + nat list" where
  "join_vocab v [] = Inr []"
| "join_vocab v (idx # ids) =
     (case v idx of
        None \<Rightarrow> Inl (KeyError idx)
      | Some bs \<Rightarrow> (case join_vocab v ids of Inl e \<Rightarrow> Inl e | Inr rest \<Rightarrow> Inr (bs @ rest)))"

definition decode :: "encoder \<Rightarrow> int list \<Rightarrow> error + nat list" where
  "decode enc ids =
     (case join_vocab (vocab enc) ids of
        Inl e \<Rightarrow> Inl e
      | Inr tokens \<Rightarrow> Inr (utf8_decode tokens))"

subsection \<open>Facts about the vocabulary\<close>

lemma build_loop_dom: "build_loop v rs = Inr v' \<Longrightarrow> dom v' = dom v \<union> snd ` set rs"
proof (induction v rs rule: build_loop.induct)
  case (1 v)
  then show ?case by simp
next
  case (2 v p0 p1 idx rest)
  from "2.prems" obtain b0 b1 where b: "v p0 = Some b0" "v p1 = Some b1"
    and r: "build_loop (v(idx \<mapsto> b0 @ b1)) rest = Inr v'"
    by (auto split: option.splits)
  from "2.IH" [OF b r] show ?case by auto
qed

lemma build_loop_entries:
  assumes "build_loop v rs = Inr v'" and "distinct (map snd rs)"
    and "\<forall>r \<in> set rs. snd r \<notin> dom v"
  shows "(\<forall>k \<in> dom v. v' k = v k)
       \<and> (\<forall>r \<in> set rs. \<exists>b0 b1. v' (fst (fst r)) = Some b0 \<and> v' (snd (fst r)) = Some b1
                              \<and> v' (snd r) = Some (b0 @ b1))"
  using assms
proof (induction v rs rule: build_loop.induct)
  case (1 v)
  then show ?case by simp
next
  case (2 v p0 p1 idx rest)
  from "2.prems"(1) obtain b0 b1 where b: "v p0 = Some b0" "v p1 = Some b1"
    and r: "build_loop (v(idx \<mapsto> b0 @ b1)) rest = Inr v'"
    by (auto split: option.splits)
  let ?v1 = "v(idx \<mapsto> b0 @ b1)"
  from "2.prems" have fresh: "idx \<notin> dom v" and d: "distinct (map snd rest)"
    and new: "\<forall>r \<in> set rest. snd r \<notin> dom ?v1"
    by auto
  from "2.IH" [OF b r d new] have
    keep: "\<forall>k \<in> dom ?v1. v' k = ?v1 k"
    and ent: "\<forall>r \<in> set rest. \<exists>b0 b1. v' (fst (fst r)) = Some b0 \<and> v' (snd (fst r)) = Some b1
                \<and> v' (snd r) = Some (b0 @ b1)"
    by blast+
  from b fresh have ne: "p0 \<noteq> idx" "p1 \<noteq> idx" by auto
  from keep b ne have "v' p0 = Some b0" "v' p1 = Some b1" "v' idx = Some (b0 @ b1)"
    by (auto simp: dom_def)
  moreover from keep fresh have "\<forall>k \<in> dom v. v' k = v k"
    by (auto simp: dom_def)
  ultimately show ?case using ent by auto
qed

lemma build_loop_succeeds:
  assumes "sorted (map snd rs)" and "distinct (map snd rs)"
    and "\<forall>r \<in> set rs. \<forall>x \<in> {fst (fst r), snd (fst r)}.
           x \<in> dom v \<or> (x \<in> snd ` set rs \<and> x < snd r)"
  shows "\<exists>v'. build_loop v rs = Inr v'"
  using assms
proof (induction v rs rule: build_loop.induct)
  case (1 v)
  then show ?case by simp
next
  case (2 v p0 p1 idx rest)
  from "2.prems"(1,2) have low: "\<forall>r \<in> set rest. idx < snd r"
    by (fastforce simp: le_less)
  have ops: "p0 \<in> dom v \<and> p1 \<in> dom v"
  proof -
    from "2.prems"(3) have "\<forall>x \<in> {p0, p1}. x \<in> dom v \<or> (x \<in> snd ` set (((p0, p1), idx) # rest) \<and> x < idx)"
      by simp
    with low show ?thesis by fastforce
  qed
  then obtain b0 b1 where b: "v p0 = Some b0" "v p1 = Some b1" by auto
  let ?v1 = "v(idx \<mapsto> b0 @ b1)"
  have h3: "\<forall>r \<in> set rest. \<forall>x \<in> {fst (fst r), snd (fst r)}.
           x \<in> dom ?v1 \<or> (x \<in> snd ` set rest \<and> x < snd r)"
    using "2.prems"(3) by auto
  from "2.prems"(1,2) have s: "sorted (map snd rest)" "distinct (map snd rest)" by simp_all
  from "2.IH" [OF b s h3] obtain v' where "build_loop ?v1 rest = Inr v'" ..
  with b show ?case by simp
qed

subsection \<open>Facts about the codec\<close>

lemma digits64_3:
  fixes c :: nat
  shows "c = 4096 * (c div 4096) + 64 * (c div 64 mod 64) + c mod 64"
proof -
  have "c mod 4096 = 64 * (c div 64 mod 64) + c mod 64"
    using mod_mult2_eq [of c 64 64] by simp
  with div_mult_mod_eq [of c 4096] show ?thesis by simp
qed

lemma digits64_4:
  fixes c :: nat
  shows "c = 262144 * (c div 262144) + 4096 * (c div 4096 mod 64) + 64 * (c div 64 mod 64)
             + c mod 64"
proof -
  have "c div 4096 = 64 * (c div 262144) + c div 4096 mod 64"
    using div_mult2_eq [of c 4096 64] mult_div_mod_eq [of 64 "c div 4096"] by simp
  with digits64_3 [of c] show ?thesis by simp
qed

lemma utf8_decode_three:
  assumes "0x800 \<le> c" "c < 0x10000" "\<not> is_surrogate c"
  shows "utf8_decode ((0xE0 + c div 4096) # (0x80 + c div 64 mod 64) # (0x80 + c mod 64) # rest)
           = c # utf8_decode rest"
proof -
  define Q r1 r0 where "Q = c div 4096" and "r1 = c div 64 mod 64" and "r0 = c mod 64"
  have dec: "c = 4096 * Q + 64 * r1 + r0" and r: "r1 < 64" "r0 < 64"
    using digits64_3 [of c] by (simp_all add: Q_def r1_def r0_def)
  have a: "\<not> 0xE0 + Q < (0x80::nat)" "\<not> 0xE0 + Q < (0xC2::nat)"
    "\<not> 0xE0 + Q < (0xE0::nat)" by simp_all
  have c: "0xE0 + Q < (0xF0::nat)" using assms dec by arith
  have d: "is_continuation (0x80 + r1)" "is_continuation (0x80 + r0)"
    using r by (simp_all add: is_continuation_def)
  have f: "\<not> (if 0x80 + r1 < (0xA0::nat) then 0xE0 + Q = (0xE0::nat)
               else 0xE0 + Q = (0xED::nat))"
    using assms dec r unfolding is_surrogate_def by (simp split: if_splits) arith
  have e: "(0xE0 + Q) * 4096 + (0x80 + r1) * 64 + (0x80 + r0)
             - (0xE0 * 4096 + 0x80 * 64 + 0x80) = c"
    using dec by simp
  have "utf8_decode ((0xE0 + Q) # (0x80 + r1) # (0x80 + r0) # rest) = c # utf8_decode rest"
    by (simp only: utf8_decode.simps a c d e f if_True if_False list.case not_True_eq_False
        not_False_eq_True simp_thms)
  then show ?thesis by (simp only: Q_def r1_def r0_def)
qed

lemma utf8_decode_two:
  assumes "0x80 \<le> c" "c < 0x800"
  shows "utf8_decode ((0xC0 + c div 64) # (0x80 + c mod 64) # rest) = c # utf8_decode rest"
proof -
  have a: "\<not> 0xC0 + c div 64 < (0x80::nat)" by simp
  have b: "\<not> 0xC0 + c div 64 < (0xC2::nat)" using assms by simp
  have c: "0xC0 + c div 64 < (0xE0::nat)" using assms by simp
  have d: "is_continuation (0x80 + c mod 64)" by (simp add: is_continuation_def)
  have e: "(0xC0 + c div 64) * 64 + (0x80 + c mod 64) - (0xC0 * 64 + 0x80) = c"
    by simp
  show ?thesis
    by (simp only: utf8_decode.simps a b c d e if_True if_False list.case not_True_eq_False
        not_False_eq_True)
qed

lemma utf8_decode_four:
  assumes "0x10000 \<le> c" "c < 0x110000"
  shows "utf8_decode ((0xF0 + c div 262144) # (0x80 + c div 4096 mod 64)
            # (0x80 + c div 64 mod 64) # (0x80 + c mod 64) # rest)
           = c # utf8_decode rest"
proof -
  define Q r2 r1 r0 where "Q = c div 262144" and "r2 = c div 4096 mod 64"
    and "r1 = c div 64 mod 64" and "r0 = c mod 64"
  have dec: "c = 262144 * Q + 4096 * r2 + 64 * r1 + r0" and r: "r2 < 64" "r1 < 64" "r0 < 64"
    using digits64_4 [of c] by (simp_all add: Q_def r2_def r1_def r0_def)
  have a: "\<not> 0xF0 + Q < (0x80::nat)" "\<not> 0xF0 + Q < (0xC2::nat)"
    "\<not> 0xF0 + Q < (0xE0::nat)" "\<not> 0xF0 + Q < (0xF0::nat)" by simp_all
  have c: "0xF0 + Q < (0xF5::nat)" using assms dec by arith
  have d: "is_continuation (0x80 + r2)" "is_continuation (0x80 + r1)"
    "is_continuation (0x80 + r0)"
    using r by (simp_all add: is_continuation_def)
  have f: "\<not> (if 0x80 + r2 < (0x90::nat) then 0xF0 + Q = (0xF0::nat)
               else 0xF0 + Q = (0xF4::nat))"
    using assms dec r by (simp split: if_splits)
  have e: "(0xF0 + Q) * 262144 + (0x80 + r2) * 4096 + (0x80 + r1) * 64 + (0x80 + r0)
             - (0xF0 * 262144 + 0x80 * 4096 + 0x80 * 64 + 0x80) = c"
    using dec by simp
  have "utf8_decode ((0xF0 + Q) # (0x80 + r2) # (0x80 + r1) # (0x80 + r0) # rest)
          = c # utf8_decode rest"
    by (simp only: utf8_decode.simps a c d e f if_True if_False list.case not_True_eq_False
        not_False_eq_True simp_thms)
  then show ?thesis by (simp only: Q_def r2_def r1_def r0_def)
qed

text \<open>The text of a Python \<open>str\<close> that \<open>encode\<close> accepts: code points below \<open>0x110000\<close>
  that are no surrogates (Unicode scalar values).\<close>

definition is_scalar :: "nat \<Rightarrow> bool" where
  "is_scalar c = (c < 0x110000 \<and> \<not> is_surrogate c)"

lemma mod_64_less_128: "(m::nat) mod 64 < 128"
  using mod_less_divisor [of 64 m] by linarith

lemma utf8_decode_encode_char:
  assumes "is_scalar c"
  shows "\<exists>bs. utf8_encode_char c = Inr bs \<and> utf8_decode (bs @ rest) = c # utf8_decode rest
            \<and> list_all (\<lambda>b. b < 256) bs"
proof -
  consider "c < 0x80" | "0x80 \<le> c" "c < 0x800" | "0x800 \<le> c" "c < 0x10000"
    | "0x10000 \<le> c" "c < 0x110000"
    using assms by (auto simp: is_scalar_def) arith
  then show ?thesis
  proof cases
    case 1
    then show ?thesis by (simp add: utf8_encode_char_def utf8_decode.simps)
  next
    case 2
    then have "c div 64 < 32" by simp
    then show ?thesis using 2 utf8_decode_two [of c rest]
      by (simp add: utf8_encode_char_def mod_64_less_128)
  next
    case 3
    then have "c div 4096 < 16" by simp
    then show ?thesis using 3 assms utf8_decode_three [of c rest]
      by (simp add: utf8_encode_char_def is_scalar_def mod_64_less_128)
  next
    case 4
    then have "c div 262144 < 5" by simp
    moreover from 4 have "\<not> is_surrogate c" by (simp add: is_surrogate_def)
    ultimately show ?thesis using 4 utf8_decode_four [of c rest]
      by (simp add: utf8_encode_char_def mod_64_less_128)
  qed
qed

lemma utf8_decode_encode:
  "list_all is_scalar chars \<Longrightarrow>
     \<exists>bs. utf8_encode chars = Inr bs \<and> utf8_decode bs = chars \<and> list_all (\<lambda>b. b < 256) bs"
proof (induction chars)
  case Nil
  then show ?case by simp
next
  case (Cons c cs)
  then obtain rest where rest: "utf8_encode cs = Inr rest" "utf8_decode rest = cs"
    "list_all (\<lambda>b. b < 256) rest"
    by auto
  from Cons.prems have "is_scalar c" by simp
  from utf8_decode_encode_char [OF this, of rest] obtain bs where
    "utf8_encode_char c = Inr bs" "utf8_decode (bs @ rest) = c # utf8_decode rest"
    "list_all (\<lambda>b. b < 256) bs"
    by blast
  with rest show ?case by simp
qed

subsection \<open>Facts about the merge loop\<close>

lemma rank_less_trans_le:
  "\<not> rank_less b m \<Longrightarrow> \<not> rank_less a b \<Longrightarrow> \<not> rank_less a m"
  by (cases a; cases b; cases m) auto

lemma rank_less_asym: "rank_less a b \<Longrightarrow> \<not> rank_less b a"
  by (cases a; cases b) auto

lemma min_loop_least:
  "x \<in> set (best # xs) \<Longrightarrow> \<not> rank_less (key x) (key (min_loop key best xs))"
proof (induction key best xs arbitrary: x rule: min_loop.induct)
  case (1 key best)
  then show ?case by (cases "key best") auto
next
  case (2 key best y ys)
  let ?b = "if rank_less (key y) (key best) then y else best"
  have m: "\<not> rank_less (key ?b) (key (min_loop key ?b ys))"
    using "2.IH" [of ?b] by simp
  have b1: "\<not> rank_less (key best) (key ?b)"
    by (cases "key best"; cases "key y") auto
  have b2: "\<not> rank_less (key y) (key ?b)"
    by (cases "key best"; cases "key y") auto
  from "2.prems" consider "x = best" | "x = y" | "x \<in> set ys" by auto
  then show ?case
  proof cases
    case 1
    with rank_less_trans_le [OF m b1] show ?thesis by simp
  next
    case 2
    with rank_less_trans_le [OF m b2] show ?thesis by simp
  next
    case 3
    with "2.IH" [of x] show ?thesis by simp
  qed
qed

lemma py_min_least:
  "py_min key xs = Inr p \<Longrightarrow> x \<in> set xs \<Longrightarrow> \<not> rank_less (key x) (key p)"
  using min_loop_least by (fastforce simp: py_min_def split: list.splits)

lemma py_min_nonempty: "xs \<noteq> [] \<Longrightarrow> \<exists>p. py_min key xs = Inr p"
  by (cases xs) (auto simp: py_min_def)

lemma get_stats_nonempty: "length tokens \<ge> 2 \<Longrightarrow> map fst (get_stats tokens) \<noteq> []"
proof -
  assume "length tokens \<ge> 2"
  then obtain a b rest where "tokens = a # b # rest"
    by (cases tokens; cases "tl tokens") auto
  then have "(a, b) \<in> set (zip tokens (tl tokens))" by simp
  then have "(a, b) \<in> fst ` set (get_stats tokens)" by (simp only: get_stats_keys)
  then show ?thesis by auto
qed

lemma encode_pass_selected:
  assumes "length tokens \<ge> 2"
  shows "\<exists>pair. py_min (\<lambda>p. dict_get ms p) (map fst (get_stats tokens)) = Inr pair
           \<and> pair \<in> set (zip tokens (tl tokens))
           \<and> (\<forall>q \<in> set (zip tokens (tl tokens)).
                 \<not> rank_less (dict_get ms q) (dict_get ms pair))"
proof -
  from py_min_nonempty [OF get_stats_nonempty [OF assms]] obtain pair where
    m: "py_min (\<lambda>p. dict_get ms p) (map fst (get_stats tokens)) = Inr pair" by blast
  have k: "set (map fst (get_stats tokens)) = set (zip tokens (tl tokens))"
    by (simp add: get_stats_keys)
  from py_min_mem [OF m] k have "pair \<in> set (zip tokens (tl tokens))" by simp
  moreover have "\<not> rank_less (dict_get ms q) (dict_get ms pair)"
    if "q \<in> set (zip tokens (tl tokens))" for q
    using py_min_least [OF m, of q] that k by simp
  ultimately show ?thesis using m by blast
qed

lemma encode_pass_no_error: "length tokens \<ge> 2 \<Longrightarrow> encode_pass ms tokens \<noteq> Inl e"
proof -
  assume "length tokens \<ge> 2"
  then obtain pair where "py_min (\<lambda>p. dict_get ms p) (map fst (get_stats tokens)) = Inr pair"
    using encode_pass_selected [of tokens ms] by blast
  then show ?thesis by (simp add: encode_pass_def split: option.splits)
qed

lemma encode_loop_total: "\<exists>toks. encode_loop ms tokens = Inr toks \<and> length toks \<le> length tokens"
proof (induction ms tokens rule: encode_loop.induct)
  case (1 ms tokens)
  show ?case
  proof (cases "length tokens \<ge> 2")
    case False
    then show ?thesis by (simp add: encode_loop.simps [of ms tokens])
  next
    case True
    show ?thesis
    proof (cases "encode_pass ms tokens")
      case (Inl e)
      with encode_pass_no_error [OF True] show ?thesis by simp
    next
      case (Inr r)
      show ?thesis
      proof (cases r)
        case Break
        with Inr True show ?thesis by (simp add: encode_loop.simps [of ms tokens])
      next
        case (Next tokens')
        with Inr True "1.IH" [of r tokens'] encode_pass_shorter [of ms tokens tokens']
        show ?thesis by (auto simp: encode_loop.simps [of ms tokens])
      qed
    qed
  qed
qed

lemma encode_passes_bound: "encode_passes ms tokens \<le> length tokens - 1"
proof (induction ms tokens rule: encode_passes.induct)
  case (1 ms tokens)
  show ?case
  proof (cases "length tokens \<ge> 2")
    case False
    then show ?thesis by (simp add: encode_passes.simps [of ms tokens])
  next
    case True
    show ?thesis
    proof (cases "encode_pass ms tokens")
      case (Inl e)
      with True show ?thesis by (simp add: encode_passes.simps [of ms tokens])
    next
      case (Inr r)
      show ?thesis
      proof (cases r)
        case Break
        with Inr True show ?thesis by (simp add: encode_passes.simps [of ms tokens])
      next
        case (Next tokens')
        with Inr True "1.IH" [of r tokens'] encode_pass_shorter [of ms tokens tokens']
        show ?thesis by (simp add: encode_passes.simps [of ms tokens])
      qed
    qed
  qed
qed

subsection \<open>The vocabulary of a valid table, and what the tokens stand for\<close>

lemma distinct_map_insort_key:
  "distinct (map f (insort_key f x xs)) = (f x \<notin> f ` set xs \<and> distinct (map f xs))"
  by (induction xs) (auto simp: set_insort_key)

lemma distinct_map_sort_key: "distinct (map f (sort_key f xs)) = distinct (map f xs)"
  by (induction xs) (simp_all add: distinct_map_insort_key)

lemma sorted_merges_facts:
  "set (sorted_merges ms) = set ms" "sorted (map snd (sorted_merges ms))"
  "distinct (map snd (sorted_merges ms)) = distinct (map snd ms)"
  "length (sorted_merges ms) = length ms"
  by (simp_all add: sorted_merges_def distinct_map_sort_key)

lemma build_vocab_dom: "build_vocab ms = Inr v \<Longrightarrow> dom v = {0..255} \<union> snd ` set ms"
proof -
  assume "build_vocab ms = Inr v"
  then have "dom v = dom base_vocab \<union> snd ` set (sorted_merges ms)"
    unfolding build_vocab_def by (rule build_loop_dom)
  moreover have "dom base_vocab = {0..255}"
    by (auto simp: base_vocab_def dom_def)
  ultimately show ?thesis by (simp add: sorted_merges_facts)
qed

text \<open>The tables of the data model: every result is above 255 and no two rules share a
  result.\<close>

definition results_valid :: "merges \<Rightarrow> bool" where
  "results_valid ms = (list_all (\<lambda>r. 255 < snd r) ms \<and> distinct (map snd ms))"

text \<open>Every operand of every rule is a base byte or the result of a rule with a lower
  result.\<close>

definition operands_defined :: "merges \<Rightarrow> bool" where
  "operands_defined ms =
     list_all (\<lambda>r. list_all (\<lambda>x. (0 \<le> x \<and> x < 256) \<or> list_ex (\<lambda>r'. snd r' = x \<and> x < snd r) ms)
                      [fst (fst r), snd (fst r)]) ms"

lemma build_vocab_entries_aux:
  assumes "build_vocab ms = Inr v" and "results_valid ms"
  shows "(\<forall>i. 0 \<le> i \<and> i < 256 \<longrightarrow> v i = Some [nat i])
       \<and> (\<forall>r \<in> set ms. \<exists>b0 b1. v (fst (fst r)) = Some b0 \<and> v (snd (fst r)) = Some b1
                              \<and> v (snd r) = Some (b0 @ b1))"
proof -
  from assms(2) have fresh: "\<forall>r \<in> set (sorted_merges ms). snd r \<notin> dom base_vocab"
    by (auto simp: results_valid_def list_all_iff sorted_merges_facts base_vocab_def dom_def)
  from assms(2) have d: "distinct (map snd (sorted_merges ms))"
    by (simp add: results_valid_def sorted_merges_facts)
  from build_loop_entries [OF assms(1) [unfolded build_vocab_def] d fresh]
  have keep: "\<forall>k \<in> dom base_vocab. v k = base_vocab k"
    and ent: "\<forall>r \<in> set (sorted_merges ms). \<exists>b0 b1. v (fst (fst r)) = Some b0
                \<and> v (snd (fst r)) = Some b1 \<and> v (snd r) = Some (b0 @ b1)"
    by blast+
  from keep have "\<forall>i. 0 \<le> i \<and> i < 256 \<longrightarrow> v i = Some [nat i]"
    by (auto simp: base_vocab_def dom_def)
  with ent show ?thesis by (simp add: sorted_merges_facts)
qed

lemma operands_definedD:
  assumes "operands_defined ms" and "r \<in> set ms" and "x = fst (fst r) \<or> x = snd (fst r)"
  shows "(0 \<le> x \<and> x < 256) \<or> (x \<in> snd ` set ms \<and> x < snd r)"
proof -
  from assms(1,2) have
    "list_all (\<lambda>x. (0 \<le> x \<and> x < 256) \<or> list_ex (\<lambda>r'. snd r' = x \<and> x < snd r) ms)
       [fst (fst r), snd (fst r)]"
    unfolding operands_defined_def list_all_iff by blast
  with assms(3) have "(0 \<le> x \<and> x < 256) \<or> list_ex (\<lambda>r'. snd r' = x \<and> x < snd r) ms"
    by auto
  then show ?thesis unfolding list_ex_iff by blast
qed

lemma dom_base_vocab: "dom base_vocab = {0..255}"
  by (auto simp: base_vocab_def dom_def)

lemma build_vocab_succeeds:
  assumes "results_valid ms" and "operands_defined ms"
  shows "\<exists>v. build_vocab ms = Inr v"
proof -
  have ops: "\<forall>r \<in> set (sorted_merges ms). \<forall>x \<in> {fst (fst r), snd (fst r)}.
          x \<in> dom base_vocab \<or> (x \<in> snd ` set (sorted_merges ms) \<and> x < snd r)"
  proof (intro ballI)
    fix r x
    assume "r \<in> set (sorted_merges ms)" and "x \<in> {fst (fst r), snd (fst r)}"
    then have "r \<in> set ms" and "x = fst (fst r) \<or> x = snd (fst r)"
      by (simp_all add: sorted_merges_facts)
    from operands_definedD [OF assms(2) this]
    show "x \<in> dom base_vocab \<or> (x \<in> snd ` set (sorted_merges ms) \<and> x < snd r)"
      by (auto simp: dom_base_vocab sorted_merges_facts)
  qed
  from assms(1) have d: "distinct (map snd (sorted_merges ms))"
    by (simp add: results_valid_def sorted_merges_facts)
  from build_loop_succeeds [OF sorted_merges_facts(2) d ops]
  show ?thesis unfolding build_vocab_def .
qed

lemma join_vocab_replace_pairs:
  "v (fst pair) = Some b0 \<Longrightarrow> v (snd pair) = Some b1 \<Longrightarrow> v idx = Some (b0 @ b1) \<Longrightarrow>
     join_vocab v (replace_pairs ids pair idx) = join_vocab v ids"
proof (induction ids pair idx rule: replace_pairs.induct)
  case (1 a b rest pair idx)
  show ?case
  proof (cases "a = fst pair \<and> b = snd pair")
    case True
    from "1.IH"(1) [OF True "1.prems"]
    have ih: "join_vocab v (replace_pairs rest pair idx) = join_vocab v rest" .
    from True "1.prems" show ?thesis
      by (cases "join_vocab v rest") (simp_all add: ih)
  next
    case False
    from "1.IH"(2) [OF False "1.prems"]
    have ih: "join_vocab v (replace_pairs (b # rest) pair idx) = join_vocab v (b # rest)" .
    have "replace_pairs (a # b # rest) pair idx = a # replace_pairs (b # rest) pair idx"
      using False by auto
    then have "join_vocab v (replace_pairs (a # b # rest) pair idx)
                 = (case v a of None \<Rightarrow> Inl (KeyError a)
                    | Some bs \<Rightarrow> (case join_vocab v (b # rest) of Inl e \<Rightarrow> Inl e
                                   | Inr r \<Rightarrow> Inr (bs @ r)))"
      by (simp only: join_vocab.simps ih)
    then show ?thesis by (simp only: join_vocab.simps)
  qed
qed simp_all

lemma join_vocab_encode_loop:
  assumes ent: "\<forall>r \<in> set ms. \<exists>b0 b1. v (fst (fst r)) = Some b0 \<and> v (snd (fst r)) = Some b1
                              \<and> v (snd r) = Some (b0 @ b1)"
  shows "encode_loop ms tokens = Inr toks \<Longrightarrow> join_vocab v toks = join_vocab v tokens"
  using ent
proof (induction ms tokens rule: encode_loop.induct)
  case (1 ms tokens)
  show ?case
  proof (cases "length tokens \<ge> 2")
    case False
    with "1.prems"(1) show ?thesis by (simp add: encode_loop.simps [of ms tokens])
  next
    case True
    show ?thesis
    proof (cases "encode_pass ms tokens")
      case (Inl e)
      with True "1.prems"(1) show ?thesis by (simp add: encode_loop.simps [of ms tokens])
    next
      case (Inr r)
      show ?thesis
      proof (cases r)
        case Break
        with Inr True "1.prems"(1) show ?thesis by (simp add: encode_loop.simps [of ms tokens])
      next
        case (Next tokens')
        with Inr True "1.prems"(1) have l: "encode_loop ms tokens' = Inr toks"
          by (simp add: encode_loop.simps [of ms tokens])
        from Inr Next have p: "encode_pass ms tokens = Inr (Next tokens')" by simp
        from "1.IH" [OF True Inr Next l "1.prems"(2)]
        have a: "join_vocab v toks = join_vocab v tokens'" .
        from encode_pass_Next_selected [OF p] obtain pair idx where
          g: "dict_get ms pair = Some idx" and t: "tokens' = replace_pairs tokens pair idx"
          by blast
        from g have "(pair, idx) \<in> set ms" by (simp add: dict_get_def map_of_SomeD)
        with "1.prems"(2) obtain b0 b1 where
          "v (fst pair) = Some b0" "v (snd pair) = Some b1" "v idx = Some (b0 @ b1)"
          by fastforce
        from join_vocab_replace_pairs [OF this, of tokens] t a show ?thesis by simp
      qed
    qed
  qed
qed

lemma join_vocab_bytes:
  assumes "\<forall>i. 0 \<le> i \<and> i < 256 \<longrightarrow> v i = Some [nat i]"
  shows "list_all (\<lambda>b. b < 256) bs \<Longrightarrow> join_vocab v (map int bs) = Inr bs"
proof (induction bs)
  case Nil
  then show ?case by simp
next
  case (Cons b bs)
  then have "b < 256" and ih: "join_vocab v (map int bs) = Inr bs" by simp_all
  with assms have "v (int b) = Some [b]" by simp
  with ih show ?case by simp
qed

section \<open>Trivial inputs\<close>

text \<open>
  Claim C9. Whatever the merge table and the vocabulary of the encoder: encoding the empty
  string gives the empty sequence, decoding the empty sequence gives the empty string, and
  encoding a text whose UTF-8 form is a single byte (one code point below \<open>0x80\<close>) gives
  the one-element sequence holding that byte's value.
\<close>

theorem encode_decode_trivial_inputs:
  "c < 0x80 \<Longrightarrow>
     encode enc [] = Inr [] \<and> decode enc [] = Inr [] \<and> encode enc [c] = Inr [int c]"
  by (simp add: encode_def decode_def utf8_encode_char_def encode_loop.simps)

theorem encode_decode_trivial_inputs_witness:
  "encode \<lparr>merges = [((104, 105), 256)], vocab_size = 5000, vocab = base_vocab\<rparr> [] = Inr []
   \<and> decode \<lparr>merges = [((104, 105), 256)], vocab_size = 5000, vocab = base_vocab\<rparr> [] = Inr []
   \<and> encode \<lparr>merges = [((104, 105), 256)], vocab_size = 5000, vocab = base_vocab\<rparr> [97]
       = Inr [97]"
  using encode_decode_trivial_inputs
    [of 97 "\<lparr>merges = [((104, 105), 256)], vocab_size = 5000, vocab = base_vocab\<rparr>"]
  by simp

section \<open>One pass of the merge loop\<close>

text \<open>Inputs on which the theorems below are run.\<close>

definition example_merges :: merges where
  "example_merges = [((104, 105), 257), ((105, 104), 256)]"

definition example_tokens :: "int list" where
  "example_tokens = [104, 105, 104, 105, 104]"

text \<open>
  Claim C3. On a sequence of at least two tokens, one run of the loop body selects, among
  the adjacent pairs that are keys of the merge table, a pair whose result is lowest, and
  replaces every non-overlapping occurrence of that pair by its result in one scan from
  the left (\<open>replace_pairs\<close>: two positions forward on a match, one otherwise); when no
  adjacent pair has a rule the body breaks and \<open>encode_loop\<close> returns the sequence as it
  is.
\<close>

theorem encode_pass_selects_lowest:
  assumes "length tokens \<ge> 2"
  shows "if list_ex (\<lambda>p. dict_get ms p \<noteq> None) (zip tokens (tl tokens))
         then \<exists>pair idx. pair \<in> set (zip tokens (tl tokens)) \<and> dict_get ms pair = Some idx
                \<and> (\<forall>q j. q \<in> set (zip tokens (tl tokens)) \<and> dict_get ms q = Some j \<longrightarrow> idx \<le> j)
                \<and> encode_pass ms tokens = Inr (Next (merge tokens pair idx))
                \<and> merge tokens pair idx = replace_pairs tokens pair idx
         else encode_pass ms tokens = Inr Break \<and> encode_loop ms tokens = Inr tokens"
proof -
  from encode_pass_selected [OF assms, of ms] obtain pair where
    m: "py_min (\<lambda>p. dict_get ms p) (map fst (get_stats tokens)) = Inr pair"
    and mem: "pair \<in> set (zip tokens (tl tokens))"
    and least: "\<And>q. q \<in> set (zip tokens (tl tokens)) \<Longrightarrow>
                  \<not> rank_less (dict_get ms q) (dict_get ms pair)"
    by blast
  show ?thesis
  proof (cases "list_ex (\<lambda>p. dict_get ms p \<noteq> None) (zip tokens (tl tokens))")
    case True
    then obtain q j where q: "q \<in> set (zip tokens (tl tokens))" "dict_get ms q = Some j"
      by (auto simp: list_ex_iff)
    with least [of q] obtain idx where idx: "dict_get ms pair = Some idx"
      by (cases "dict_get ms pair") auto
    have "idx \<le> j'" if "q' \<in> set (zip tokens (tl tokens)) \<and> dict_get ms q' = Some j'" for q' j'
      using least [of q'] that idx by auto
    then have le: "\<forall>q j. q \<in> set (zip tokens (tl tokens)) \<and> dict_get ms q = Some j
                     \<longrightarrow> idx \<le> j"
      by blast
    have ep: "encode_pass ms tokens = Inr (Next (merge tokens pair idx))"
      using m idx by (simp add: encode_pass_def)
    have "\<exists>pair idx. pair \<in> set (zip tokens (tl tokens)) \<and> dict_get ms pair = Some idx
                \<and> (\<forall>q j. q \<in> set (zip tokens (tl tokens)) \<and> dict_get ms q = Some j \<longrightarrow> idx \<le> j)
                \<and> encode_pass ms tokens = Inr (Next (merge tokens pair idx))
                \<and> merge tokens pair idx = replace_pairs tokens pair idx"
      using mem idx le ep merge_replace_pairs [of tokens pair idx] by blast
    then show ?thesis by (simp only: if_P [OF True])
  next
    case False
    with mem have "dict_get ms pair = None" by (auto simp: list_ex_iff)
    with m have "encode_pass ms tokens = Inr Break" by (simp add: encode_pass_def)
    with assms False show ?thesis by (simp add: encode_loop.simps [of ms tokens])
  qed
qed

theorem encode_pass_selects_lowest_witness:
  "length example_tokens \<ge> 2
   \<and> list_ex (\<lambda>p. dict_get example_merges p \<noteq> None) (zip example_tokens (tl example_tokens))
   \<and> (\<exists>pair idx. pair \<in> set (zip example_tokens (tl example_tokens))
        \<and> dict_get example_merges pair = Some idx
        \<and> (\<forall>q j. q \<in> set (zip example_tokens (tl example_tokens))
                 \<and> dict_get example_merges q = Some j \<longrightarrow> idx \<le> j)
        \<and> encode_pass example_merges example_tokens = Inr (Next (merge example_tokens pair idx))
        \<and> merge example_tokens pair idx = replace_pairs example_tokens pair idx)
   \<and> encode_pass example_merges example_tokens = Inr (Next [104, 256, 256])"
proof -
  have h: "length example_tokens \<ge> 2" by (simp add: example_tokens_def)
  have c: "list_ex (\<lambda>p. dict_get example_merges p \<noteq> None)
             (zip example_tokens (tl example_tokens))"
    by (simp add: dict_get_def example_tokens_def example_merges_def)
  have e: "encode_pass example_merges example_tokens = Inr (Next [104, 256, 256])"
    by (simp add: encode_pass_def get_stats_def dict_get_def py_min_def merge_def
        merge_loop.simps example_tokens_def example_merges_def)
  from encode_pass_selects_lowest [OF h, of example_merges, unfolded if_P [OF c]] h c e
  show ?thesis by blast
qed

section \<open>Termination of \<open>encode\<close>\<close>

text \<open>
  Claim C10. \<open>encode\<close> returns on every text and every merge table: a text that has no
  UTF-8 form raises at once; otherwise the loop returns a token sequence. A pass that
  replaces a pair makes the sequence strictly shorter, so the body of the loop runs at
  most \<open>len(utf8(text)) - 1\<close> times (no time on the empty text, where the subtraction on
  \<open>nat\<close> stops at \<open>0\<close>). That the loop ends at all is the termination proof of
  \<open>encode_loop\<close> above.
\<close>

theorem encode_terminates:
  "(case utf8_encode text of
      Inl e \<Rightarrow> encode enc text = Inl e
    | Inr bs \<Rightarrow> (\<exists>toks. encode enc text = Inr toks \<and> length toks \<le> length bs)
               \<and> encode_passes (merges enc) (map int bs) \<le> length bs - 1)
   \<and> (\<forall>tokens tokens'. encode_pass (merges enc) tokens = Inr (Next tokens')
                          \<longrightarrow> length tokens' < length tokens)"
  using encode_loop_total [of "merges enc" "map int (projr (utf8_encode text))"]
    encode_passes_bound [of "merges enc" "map int (projr (utf8_encode text))"]
    encode_pass_shorter [of "merges enc"]
  by (auto simp: encode_def split: sum.splits)

theorem encode_terminates_witness:
  "utf8_encode [104, 105, 104, 105, 104] = Inr [104, 105, 104, 105, 104]
   \<and> encode \<lparr>merges = [((104, 105), 256)], vocab_size = 5000, vocab = base_vocab\<rparr>
        [104, 105, 104, 105, 104] = Inr [256, 256, 104]
   \<and> encode_passes [((104, 105), 256)] [104, 105, 104, 105, 104] = 2
   \<and> encode_passes [((104, 105), 256)] [104, 105, 104, 105, 104]
        \<le> length [104, 105, 104, 105, 104 :: nat] - 1
   \<and> encode_pass [((104, 105), 256)] [104, 105, 104, 105, 104] = Inr (Next [256, 256, 104])
   \<and> length [256, 256, 104 :: int] < length [104, 105, 104, 105, 104 :: int]"
proof -
  let ?enc = "\<lparr>merges = [((104, 105), 256)], vocab_size = 5000, vocab = base_vocab\<rparr>"
  have u: "utf8_encode [104, 105, 104, 105, 104] = Inr [104, 105, 104, 105, 104]"
    by (simp add: utf8_encode_char_def)
  have p1: "encode_pass [((104, 105), 256)] [104, 105, 104, 105, 104] = Inr (Next [256, 256, 104])"
    by (simp add: encode_pass_def get_stats_def dict_get_def py_min_def merge_def
        merge_loop.simps)
  have p2: "encode_pass [((104, 105), 256)] [256, 256, 104] = Inr Break"
    by (simp add: encode_pass_def get_stats_def dict_get_def py_min_def)
  have l: "encode_loop [((104, 105), 256)] [104, 105, 104, 105, 104] = Inr [256, 256, 104]"
    by (simp add: encode_loop.simps p1 p2)
  have n: "encode_passes [((104, 105), 256)] [104, 105, 104, 105, 104] = 2"
    by (simp add: encode_passes.simps p1 p2)
  from encode_terminates [of ?enc "[104, 105, 104, 105, 104]"] u
  have "encode_passes [((104, 105), 256)] (map int [104, 105, 104, 105, 104])
          \<le> length [104, 105, 104, 105, 104 :: nat] - 1"
    and "length [256, 256, 104 :: int] < length [104, 105, 104, 105, 104 :: int]"
    using p1 by auto
  with u l n p1 show ?thesis by (simp add: encode_def)
qed

section \<open>Looking tokens up in the vocabulary\<close>

text \<open>The generator \<open>self._vocab[idx] for idx in ids\<close> raises at the first identifier
  that has no entry, and yields the entries in order when there is none.\<close>

lemma join_vocab_missing:
  "list_ex (\<lambda>i. v i = None) ids \<Longrightarrow>
     \<exists>i. i \<in> set ids \<and> v i = None \<and> join_vocab v ids = Inl (KeyError i)"
proof (induction ids)
  case Nil
  then show ?case by simp
next
  case (Cons a ids)
  show ?case
  proof (cases "v a")
    case None
    then show ?thesis by auto
  next
    case (Some bs)
    with Cons.prems have "list_ex (\<lambda>i. v i = None) ids" by simp
    from Cons.IH [OF this] obtain i where
      "i \<in> set ids" "v i = None" "join_vocab v ids = Inl (KeyError i)" by blast
    with Some show ?thesis by auto
  qed
qed


section \<open>Round trip of \<open>encode\<close> and \<open>decode\<close>\<close>

text \<open>Example tables: two rules with the same result, a rule whose result is a base byte,
  and a table whose second rule uses the result of the first.\<close>

definition results_above_255 :: "merges \<Rightarrow> bool" where
  "results_above_255 ms = list_all (\<lambda>r. 255 < snd r) ms"

definition dup_merges :: merges where
  "dup_merges = [((1, 2), 256), ((3, 4), 256)]"

definition dup_encoder :: encoder where
  "dup_encoder =
     \<lparr>merges = dup_merges, vocab_size = 5000, vocab = base_vocab(256 \<mapsto> [1, 2], 256 \<mapsto> [3, 4])\<rparr>"

definition low_merges :: merges where
  "low_merges = [((1, 2), 5)]"

definition hi_merges :: merges where
  "hi_merges = [((104, 105), 256), ((256, 33), 257)]"

definition hi_vocab :: vocab where
  "hi_vocab = base_vocab(256 \<mapsto> [104, 105], 257 \<mapsto> [104, 105, 33])"

lemma build_dup: "build_vocab dup_merges = Inr (base_vocab(256 \<mapsto> [1, 2], 256 \<mapsto> [3, 4]))"
  by (simp add: build_vocab_def sorted_merges_def dup_merges_def base_vocab_def)

lemma build_low: "build_vocab low_merges = Inr (base_vocab(5 \<mapsto> [1, 2]))"
  by (simp add: build_vocab_def sorted_merges_def low_merges_def base_vocab_def)

lemma build_hi: "build_vocab hi_merges = Inr hi_vocab"
  by (simp add: build_vocab_def sorted_merges_def hi_merges_def base_vocab_def hi_vocab_def)

lemma hi_valid: "results_valid hi_merges" "operands_defined hi_merges"
  by (simp_all add: results_valid_def operands_defined_def hi_merges_def)

text \<open>
  Claim C1. For every table of merge rules whose results are all above \<open>255\<close> and pairwise
  distinct, whose operands are base bytes or results of lower rules, and for every text of
  Unicode scalar values: the encoder is constructed, \<open>encode\<close> returns, and \<open>decode\<close> of
  the tokens is the text. The tokens always stand for the UTF-8 bytes of the text, because
  every replaced pair is replaced by a token whose vocabulary entry is the concatenation
  of the entries of the pair. Without distinct results this fails: the vocabulary keeps
  the bytes of the last rule with a result, while \<open>encode\<close> emits the result for the pair of
  any rule, as the table \<open>dup_merges\<close> shows on the text of code points \<open>1, 2\<close>.
\<close>

theorem roundtrip_valid_table:
  assumes "results_valid ms" and "operands_defined ms" and "list_all is_scalar chars"
  shows "\<exists>enc toks. BPEEncoder ms vs = Inr enc \<and> encode enc chars = Inr toks
           \<and> decode enc toks = Inr chars"
proof -
  from build_vocab_succeeds [OF assms(1,2)] obtain v where v: "build_vocab ms = Inr v" ..
  let ?enc = "\<lparr>merges = ms, vocab_size = vs, vocab = v\<rparr>"
  from v have enc: "BPEEncoder ms vs = Inr ?enc" by (simp add: BPEEncoder_def)
  from build_vocab_entries_aux [OF v assms(1)] have
    base: "\<forall>i. 0 \<le> i \<and> i < 256 \<longrightarrow> v i = Some [nat i]"
    and ent: "\<forall>r \<in> set ms. \<exists>b0 b1. v (fst (fst r)) = Some b0 \<and> v (snd (fst r)) = Some b1
                \<and> v (snd r) = Some (b0 @ b1)"
    by blast+
  from utf8_decode_encode [OF assms(3)] obtain bs where
    bs: "utf8_encode chars = Inr bs" "utf8_decode bs = chars" "list_all (\<lambda>b. b < 256) bs"
    by blast
  from encode_loop_total [of ms "map int bs"] obtain toks where
    toks: "encode_loop ms (map int bs) = Inr toks" by blast
  from join_vocab_encode_loop [OF ent toks] join_vocab_bytes [OF base bs(3)]
  have "join_vocab v toks = Inr bs" by simp
  with bs(2) have "decode ?enc toks = Inr chars" by (simp add: decode_def)
  moreover from bs(1) toks have "encode ?enc chars = Inr toks" by (simp add: encode_def)
  ultimately show ?thesis using enc by blast
qed

theorem roundtrip_valid_table_witness:
  "results_valid hi_merges \<and> operands_defined hi_merges \<and> list_all is_scalar [104, 105, 33]
   \<and> (\<exists>enc toks. BPEEncoder hi_merges 5000 = Inr enc \<and> encode enc [104, 105, 33] = Inr toks
         \<and> decode enc toks = Inr [104, 105, 33])"
proof -
  have s: "list_all is_scalar [104, 105, 33]"
    by (simp add: is_scalar_def is_surrogate_def)
  from roundtrip_valid_table [OF hi_valid s, of 5000] hi_valid s show ?thesis by blast
qed

theorem roundtrip_duplicate_result_counterexample:
  "results_above_255 dup_merges \<and> operands_defined dup_merges \<and> list_all is_scalar [1, 2]
   \<and> BPEEncoder dup_merges 5000 = Inr dup_encoder
   \<and> encode dup_encoder [1, 2] = Inr [256]
   \<and> decode dup_encoder [256] = Inr [3, 4]"
proof -
  have p: "encode_pass dup_merges [1, 2] = Inr (Next [256])"
    by (simp add: encode_pass_def get_stats_def dict_get_def py_min_def merge_def
        merge_loop.simps dup_merges_def)
  have "encode dup_encoder [1, 2] = Inr [256]"
    by (simp add: encode_def dup_encoder_def utf8_encode_char_def encode_loop.simps p)
  moreover have "decode dup_encoder [256] = Inr [3, 4]"
    by (simp add: decode_def dup_encoder_def utf8_decode.simps)
  moreover have "BPEEncoder dup_merges 5000 = Inr dup_encoder"
    by (simp add: BPEEncoder_def build_dup dup_encoder_def)
  moreover have "results_above_255 dup_merges" "operands_defined dup_merges"
    by (simp_all add: results_above_255_def operands_defined_def dup_merges_def)
  moreover have "list_all is_scalar [1, 2]" by (simp add: is_scalar_def is_surrogate_def)
  ultimately show ?thesis by blast
qed

section \<open>The vocabulary\<close>

text \<open>A second call of \<open>self._build_vocab()\<close> on an encoder: it reads \<open>self.merges\<close> only
  and stores the vocabulary it builds.\<close>

definition rebuild_vocab :: "encoder \<Rightarrow> error + encoder" where
  "rebuild_vocab enc =
     (case build_vocab (merges enc) of
        Inl e \<Rightarrow> Inl e
      | Inr v \<Rightarrow> Inr (enc\<lparr>vocab := v\<rparr>))"

definition low_vocab :: vocab where
  "low_vocab = base_vocab(5 \<mapsto> [1, 2])"

definition dup_vocab :: vocab where
  "dup_vocab = base_vocab(256 \<mapsto> [1, 2], 256 \<mapsto> [3, 4])"

text \<open>
  Claim C4. When every result of the table is above \<open>255\<close> and no two rules share a result,
  the vocabulary that \<open>_build_vocab\<close> builds maps every identifier in \<open>0..255\<close> to the single
  byte of that value and the result of every rule to the entry of its left operand followed
  by the entry of its right operand. The rules are processed in ascending order of their
  results: the loop runs over the table sorted by result, which holds the same rules.
  Every encoder constructed from the table holds this vocabulary, and building the
  vocabulary again leaves the encoder as it is. A rule whose result is a base byte
  overwrites the entry of that byte, and of two rules with the same result the later one
  overwrites the entry of the earlier, as \<open>low_merges\<close> and \<open>dup_merges\<close> show.
\<close>

theorem build_vocab_entries:
  assumes "build_vocab ms = Inr v" and "results_valid ms"
  shows "(\<forall>i. 0 \<le> i \<and> i < 256 \<longrightarrow> v i = Some [nat i])
       \<and> (\<forall>r \<in> set ms. \<exists>b0 b1. v (fst (fst r)) = Some b0 \<and> v (snd (fst r)) = Some b1
                              \<and> v (snd r) = Some (b0 @ b1))
       \<and> build_vocab ms = build_loop base_vocab (sorted_merges ms)
       \<and> sorted (map snd (sorted_merges ms))
       \<and> set (sorted_merges ms) = set ms \<and> length (sorted_merges ms) = length ms
       \<and> (\<forall>vs enc. BPEEncoder ms vs = Inr enc \<longrightarrow> vocab enc = v \<and> rebuild_vocab enc = Inr enc)"
proof -
  have "\<forall>vs enc. BPEEncoder ms vs = Inr enc \<longrightarrow> vocab enc = v \<and> rebuild_vocab enc = Inr enc"
    using assms(1) by (auto simp: BPEEncoder_def rebuild_vocab_def)
  with build_vocab_entries_aux [OF assms] show ?thesis
    by (simp add: sorted_merges_facts build_vocab_def)
qed

theorem build_vocab_entries_witness:
  "build_vocab hi_merges = Inr hi_vocab \<and> results_valid hi_merges
   \<and> hi_vocab 104 = Some [104] \<and> hi_vocab 33 = Some [33]
   \<and> hi_vocab 256 = Some [104, 105] \<and> hi_vocab 257 = Some ([104, 105] @ [33])
   \<and> sorted (map snd (sorted_merges hi_merges))
   \<and> BPEEncoder hi_merges 5000 = Inr \<lparr>merges = hi_merges, vocab_size = 5000, vocab = hi_vocab\<rparr>
   \<and> rebuild_vocab \<lparr>merges = hi_merges, vocab_size = 5000, vocab = hi_vocab\<rparr>
       = Inr \<lparr>merges = hi_merges, vocab_size = 5000, vocab = hi_vocab\<rparr>"
proof -
  let ?enc = "\<lparr>merges = hi_merges, vocab_size = 5000, vocab = hi_vocab\<rparr>"
  have e: "BPEEncoder hi_merges 5000 = Inr ?enc"
    by (simp add: BPEEncoder_def build_hi)
  have v: "hi_vocab 104 = Some [104]" "hi_vocab 33 = Some [33]"
    "hi_vocab 256 = Some [104, 105]" "hi_vocab 257 = Some ([104, 105] @ [33])"
    by (simp_all add: hi_vocab_def base_vocab_def)
  from build_vocab_entries [OF build_hi hi_valid(1)] e
  have "sorted (map snd (sorted_merges hi_merges))" and "rebuild_vocab ?enc = Inr ?enc"
    by blast+
  with e v build_hi hi_valid(1) show ?thesis by simp
qed

theorem build_vocab_low_result_counterexample:
  "build_vocab low_merges = Inr low_vocab \<and> low_vocab 5 = Some [1, 2] \<and> [1, 2] \<noteq> [nat 5]
   \<and> build_vocab dup_merges = Inr dup_vocab \<and> ((1, 2), 256) \<in> set dup_merges
   \<and> dup_vocab 1 = Some [1] \<and> dup_vocab 2 = Some [2] \<and> dup_vocab 256 = Some [3, 4]
   \<and> [3, 4] \<noteq> [1] @ [2 :: nat]"
proof -
  have "build_vocab low_merges = Inr low_vocab" "build_vocab dup_merges = Inr dup_vocab"
    by (simp_all add: build_low build_dup low_vocab_def dup_vocab_def)
  moreover have "low_vocab 5 = Some [1, 2]" "dup_vocab 1 = Some [1]" "dup_vocab 2 = Some [2]"
    "dup_vocab 256 = Some [3, 4]"
    by (simp_all add: low_vocab_def dup_vocab_def base_vocab_def)
  moreover have "((1, 2), 256) \<in> set dup_merges" by (simp add: dup_merges_def)
  ultimately show ?thesis by simp
qed

section \<open>Decoding an identifier that has no entry\<close>

text \<open>An identifier is unknown to a table when it is no base byte and no result of a
  rule.\<close>

definition unknown_id :: "merges \<Rightarrow> int \<Rightarrow> bool" where
  "unknown_id ms i = (\<not> (0 \<le> i \<and> i < 256) \<and> i \<notin> snd ` set ms)"

definition hi_encoder :: encoder where
  "hi_encoder = \<lparr>merges = hi_merges, vocab_size = 5000, vocab = hi_vocab\<rparr>"

text \<open>
  Claim C5. When the sequence of identifiers given to \<open>decode\<close> of an encoder constructed
  from a table holds an identifier that is no base byte and no result of a rule, \<open>decode\<close>
  raises \<open>KeyError\<close> for such an identifier of the sequence: it returns no text, and the
  identifier is not skipped.
\<close>

theorem decode_unknown_id:
  assumes "BPEEncoder ms vs = Inr enc" and "list_ex (unknown_id ms) ids"
  shows "\<exists>i. i \<in> set ids \<and> unknown_id ms i \<and> decode enc ids = Inl (KeyError i)"
proof -
  from assms(1) obtain v where v: "build_vocab ms = Inr v" and e: "vocab enc = v"
    by (auto simp: BPEEncoder_def split: sum.splits)
  have d: "(v i = None) = unknown_id ms i" for i
  proof -
    have "(v i = None) = (i \<notin> dom v)" by (simp add: domIff)
    also have "\<dots> = unknown_id ms i"
      unfolding build_vocab_dom [OF v] unknown_id_def by auto
    finally show ?thesis .
  qed
  with assms(2) have "list_ex (\<lambda>i. v i = None) ids" by simp
  from join_vocab_missing [OF this] obtain i where
    "i \<in> set ids" "v i = None" "join_vocab v ids = Inl (KeyError i)" by blast
  with d e show ?thesis by (auto simp: decode_def)
qed

theorem decode_unknown_id_witness:
  "BPEEncoder hi_merges 5000 = Inr hi_encoder \<and> list_ex (unknown_id hi_merges) [104, 300, 105]
   \<and> (\<exists>i. i \<in> set [104, 300, 105] \<and> unknown_id hi_merges i
          \<and> decode hi_encoder [104, 300, 105] = Inl (KeyError i))
   \<and> decode hi_encoder [104, 300, 105] = Inl (KeyError 300)"
proof -
  have e: "BPEEncoder hi_merges 5000 = Inr hi_encoder"
    by (simp add: BPEEncoder_def build_hi hi_encoder_def)
  have u: "list_ex (unknown_id hi_merges) [104, 300, 105]"
    by (simp add: unknown_id_def hi_merges_def)
  have "decode hi_encoder [104, 300, 105] = Inl (KeyError 300)"
    by (simp add: decode_def hi_encoder_def hi_vocab_def base_vocab_def)
  with decode_unknown_id [OF e u] e u show ?thesis by blast
qed

section \<open>Decoding bytes that are not UTF-8\<close>














section \<open>The persisted table: \<open>save\<close> and \<open>from_file\<close>\<close>

text \<open>
  The file holds the JSON form of a dictionary. \<open>json.dump\<close> followed by \<open>json.load\<close> gives
  back a dictionary of string keys and integer values with its entries in the same order, so
  the persisted data is that dictionary: the entries of \<open>"merges"\<close> in iteration order, and
  \<open>"vocab_size"\<close> and \<open>"num_merges"\<close> when present. The keys are \<open>string\<close>s, that is, strings of
  code points below 256.
\<close>

record persisted =
  p_merges :: "(string \<times> int) list"
  p_vocab_size :: "int option"
  p_num_merges :: "int option"

subsection \<open>Integers as decimal strings\<close>

text \<open>\<open>f"{n}"\<close> on an integer: the decimal digits, after a minus sign when it is negative.
  The conversions are exact; the interpreter's configurable limit on the number of digits
  of a converted integer is not part of the model.\<close>

definition digit_char :: "nat \<Rightarrow> char" where
  "digit_char d = ''0123456789'' ! d"

fun nat_digits :: "nat \<Rightarrow> string" where
  "nat_digits n =
     (if n < 10 then [digit_char n] else nat_digits (n div 10) @ [digit_char (n mod 10)])"

declare nat_digits.simps [simp del]

definition py_str :: "int \<Rightarrow> string" where
  "py_str i = (if i < 0 then CHR ''-'' # nat_digits (nat (- i)) else nat_digits (nat i))"

text \<open>\<open>int(s)\<close> on a string, in base ten: white space around the number is skipped (among the
  code points below 256 these are the six ASCII ones, U+0085 and U+00A0), one sign may come
  first, and the digits may be separated by single underscores. Anything else raises
  \<open>ValueError\<close>, which is \<open>None\<close> here.\<close>

definition is_space :: "char \<Rightarrow> bool" where
  "is_space c = (of_char c \<in> {9, 10, 11, 12, 13, 32, 0x85, 0xA0 :: nat})"

definition is_digit :: "char \<Rightarrow> bool" where
  "is_digit c = (48 \<le> (of_char c :: nat) \<and> (of_char c :: nat) \<le> 57)"

definition digit_value :: "char \<Rightarrow> nat" where
  "digit_value c = of_char c - 48"

fun digits_ok :: "string \<Rightarrow> bool" where
  "digits_ok [] = False"
| "digits_ok [c] = is_digit c"
| "digits_ok (c # d # cs) =
     (is_digit c \<and> (if d = CHR ''_'' then digits_ok cs else digits_ok (d # cs)))"

fun digits_value :: "nat \<Rightarrow> string \<Rightarrow> nat" where
  "digits_value acc [] = acc"
| "digits_value acc (c # cs) =
     (if c = CHR ''_'' then digits_value acc cs else digits_value (acc * 10 + digit_value c) cs)"

definition py_int :: "string \<Rightarrow> int option" where
  "py_int s =
     (let s1 = dropWhile is_space s;
          signed = (s1 \<noteq> [] \<and> (hd s1 = CHR ''-'' \<or> hd s1 = CHR ''+''));
          s2 = (if signed then tl s1 else s1);
          body = takeWhile (\<lambda>c. is_digit c \<or> c = CHR ''_'') s2;
          rest = dropWhile (\<lambda>c. is_digit c \<or> c = CHR ''_'') s2
      in if digits_ok body \<and> list_all is_space rest
         then Some (if signed \<and> hd s1 = CHR ''-'' then - int (digits_value 0 body)
                    else int (digits_value 0 body))
         else None)"

text \<open>\<open>key.split(',')\<close>: the pieces between the commas, of which there is always at least
  one.\<close>

fun split_comma :: "string \<Rightarrow> string list" where
  "split_comma [] = [[]]"
| "split_comma (c # cs) =
     (if c = CHR '','' then [] # split_comma cs
      else (case split_comma cs of [] \<Rightarrow> [[c]] | p # ps \<Rightarrow> (c # p) # ps))"

text \<open>\<open>k1, k2 = map(int, key.split(','))\<close>: the unpacking raises \<open>ValueError\<close> unless there are
  exactly two pieces, and \<open>int\<close> raises \<open>ValueError\<close> on a piece that is no integer; whichever
  comes first, the error is the same.\<close>

definition parse_key :: "string \<Rightarrow> (int \<times> int) option" where
  "parse_key key =
     (case split_comma key of
        [a, b] \<Rightarrow>
          (case py_int a of
             None \<Rightarrow> None
           | Some k1 \<Rightarrow> (case py_int b of None \<Rightarrow> None | Some k2 \<Rightarrow> Some (k1, k2)))
      | _ \<Rightarrow> None)"

text \<open>\<open>f"{k[0]},{k[1]}"\<close>\<close>

definition format_key :: "pair \<Rightarrow> string" where
  "format_key k = py_str (fst k) @ '','' @ py_str (snd k)"

subsection \<open>\<open>save\<close>\<close>

text \<open>A dictionary comprehension or a loop of assignments \<open>d[k] = v\<close>, from the empty
  dictionary.\<close>

definition dict_of_items :: "('k \<times> 'v) list \<Rightarrow> ('k \<times> 'v) list" where
  "dict_of_items items = fold (\<lambda>(k, v) d. dict_set d k v) items []"

text \<open>\<open>merges_json = {f"{k[0]},{k[1]}": v for k, v in self.merges.items()}\<close> and the
  dictionary that is written.\<close>

definition save :: "encoder \<Rightarrow> persisted" where
  "save enc =
     \<lparr>p_merges = dict_of_items (map (\<lambda>(k, v). (format_key k, v)) (merges enc)),
      p_vocab_size = Some (vocab_size enc),
      p_num_merges = Some (int (length (merges enc)))\<rparr>"

subsection \<open>\<open>from_file\<close>\<close>

text \<open>The loop \<open>for key, value in data["merges"].items()\<close> with
  \<open>merges[(k1, k2)] = value\<close>.\<close>

fun load_loop :: "merges \<Rightarrow> (string \<times> int) list \<Rightarrow> error + merges" where
  "load_loop ms [] = Inr ms"
| "load_loop ms ((key, v) # rest) =
     (case parse_key key of
        None \<Rightarrow> Inl ValueError
      | Some k \<Rightarrow> load_loop (dict_set ms k v) rest)"

text \<open>\<open>cls(merges, data.get("vocab_size", 5000))\<close>\<close>

definition from_file :: "persisted \<Rightarrow> error + encoder" where
  "from_file data =
     (case load_loop [] (p_merges data) of
        Inl e \<Rightarrow> Inl e
      | Inr ms \<Rightarrow> BPEEncoder ms (case p_vocab_size data of None \<Rightarrow> 5000 | Some vs \<Rightarrow> vs))"

text \<open>The first operand, in the order in which \<open>_build_vocab\<close> reads them, that is neither a
  base byte nor the result of a rule processed before; \<open>known\<close> holds the results of the
  rules processed so far.\<close>

fun first_undefined :: "int list \<Rightarrow> merges \<Rightarrow> int option" where
  "first_undefined known [] = None"
| "first_undefined known (((p0, p1), idx) # rest) =
     (if \<not> (0 \<le> p0 \<and> p0 < 256) \<and> p0 \<notin> set known then Some p0
      else if \<not> (0 \<le> p1 \<and> p1 < 256) \<and> p1 \<notin> set known then Some p1
      else first_undefined (idx # known) rest)"

subsection \<open>Facts about the decimal strings\<close>

lemma digit_cases: "d < 10 \<Longrightarrow> d \<in> {0, 1, 2, 3, 4, 5, 6, 7, 8, 9 :: nat}"
  by auto

lemma digit_char_in: "d < 10 \<Longrightarrow> digit_char d \<in> set ''0123456789''"
  using digit_cases [of d] by (auto simp: digit_char_def)

lemma digit_value_digit_char: "d < 10 \<Longrightarrow> digit_value (digit_char d) = d"
  using digit_cases [of d] by (auto simp: digit_char_def digit_value_def)

lemma decimal_char_facts:
  assumes "c \<in> set ''0123456789''"
  shows "is_digit c" "c \<noteq> CHR ''_''" "c \<noteq> CHR '',''" "\<not> is_space c"
    "c \<noteq> CHR ''-''" "c \<noteq> CHR ''+''"
  using assms by (auto simp: is_digit_def is_space_def)

lemma nat_digits_decimal:
  "nat_digits n \<noteq> [] \<and> set (nat_digits n) \<subseteq> set ''0123456789''"
proof (induction n rule: nat_digits.induct)
  case (1 n)
  show ?case
  proof (cases "n < 10")
    case True
    with digit_char_in [of n] show ?thesis by (simp add: nat_digits.simps [of n])
  next
    case False
    have "n mod 10 < 10" by simp
    from digit_char_in [OF this] 1 [OF False] False show ?thesis
      by (simp add: nat_digits.simps [of n])
  qed
qed

lemma digits_value_snoc:
  "c \<noteq> CHR ''_'' \<Longrightarrow> digits_value acc (cs @ [c]) = digits_value acc cs * 10 + digit_value c"
  by (induction cs arbitrary: acc) auto

lemma digits_value_nat_digits: "digits_value 0 (nat_digits n) = n"
proof (induction n rule: nat_digits.induct)
  case (1 n)
  show ?case
  proof (cases "n < 10")
    case True
    from digit_char_in [OF True] have "digit_char n \<noteq> CHR ''_''" by (rule decimal_char_facts)
    with True show ?thesis by (simp add: nat_digits.simps [of n] digit_value_digit_char)
  next
    case False
    have m: "n mod 10 < 10" by simp
    from digit_char_in [OF m] have "digit_char (n mod 10) \<noteq> CHR ''_''"
      by (rule decimal_char_facts)
    with 1 [OF False] False show ?thesis
      by (simp add: nat_digits.simps [of n] digits_value_snoc digit_value_digit_char [OF m])
  qed
qed

lemma digits_ok_decimal: "cs \<noteq> [] \<Longrightarrow> set cs \<subseteq> set ''0123456789'' \<Longrightarrow> digits_ok cs"
proof (induction cs rule: digits_ok.induct)
  case 1
  then show ?case by simp
next
  case (2 c)
  then have "c \<in> set ''0123456789''" by simp
  then show ?case by (simp add: decimal_char_facts)
next
  case (3 c d cs)
  then have c: "c \<in> set ''0123456789''" and d: "d \<in> set ''0123456789''"
    and r: "set (d # cs) \<subseteq> set ''0123456789''" by simp_all
  from d have "d \<noteq> CHR ''_''" by (rule decimal_char_facts)
  with 3 c r show ?case by (simp add: decimal_char_facts(1) [OF c])
qed

lemma py_int_digits:
  assumes ne: "ds \<noteq> []" and dec: "set ds \<subseteq> set ''0123456789''"
  shows "py_int ds = Some (int (digits_value 0 ds))"
    and "py_int (CHR ''-'' # ds) = Some (- int (digits_value 0 ds))"
proof -
  from dec have a: "\<forall>c \<in> set ds. is_digit c \<or> c = CHR ''_''"
    using decimal_char_facts(1) by blast
  then have t: "takeWhile (\<lambda>c. is_digit c \<or> c = CHR ''_'') ds = ds"
    and r: "dropWhile (\<lambda>c. is_digit c \<or> c = CHR ''_'') ds = []"
    by simp_all
  from ne obtain c cs where e: "ds = c # cs" by (cases ds) auto
  with dec have c: "c \<in> set ''0123456789''" by simp
  have s: "dropWhile is_space ds = ds"
    unfolding e using decimal_char_facts(4) [OF c] by simp
  have h: "hd ds \<noteq> CHR ''-''" "hd ds \<noteq> CHR ''+''"
    unfolding e using decimal_char_facts(5,6) [OF c] by simp_all
  have ok: "digits_ok ds" using ne dec by (rule digits_ok_decimal)
  show "py_int ds = Some (int (digits_value 0 ds))"
    unfolding py_int_def Let_def s by (simp add: h t r ok)
  have s': "dropWhile is_space (CHR ''-'' # ds) = CHR ''-'' # ds"
    by (simp add: is_space_def)
  show "py_int (CHR ''-'' # ds) = Some (- int (digits_value 0 ds))"
    unfolding py_int_def Let_def s' by (simp add: t r ok)
qed

lemma py_int_py_str: "py_int (py_str i) = Some i"
  using nat_digits_decimal [of "nat i"] nat_digits_decimal [of "nat (- i)"]
  by (simp add: py_str_def py_int_digits digits_value_nat_digits)

lemma py_str_no_comma: "CHR '','' \<notin> set (py_str i)"
proof -
  have "CHR '','' \<notin> set (nat_digits n)" for n
    using nat_digits_decimal [of n] decimal_char_facts(3) by blast
  then show ?thesis by (simp add: py_str_def)
qed

lemma split_comma_no_comma: "CHR '','' \<notin> set s \<Longrightarrow> split_comma s = [s]"
  by (induction s) auto

lemma split_comma_one_comma:
  "CHR '','' \<notin> set a \<Longrightarrow> CHR '','' \<notin> set b \<Longrightarrow> split_comma (a @ CHR '','' # b) = [a, b]"
  by (induction a) (auto simp: split_comma_no_comma)

lemma parse_key_format_key: "parse_key (format_key k) = Some k"
  by (simp add: parse_key_def format_key_def split_comma_one_comma py_str_no_comma py_int_py_str)

subsection \<open>Facts about saving and loading\<close>

lemma dict_set_fresh: "k \<notin> fst ` set d \<Longrightarrow> dict_set d k v = d @ [(k, v)]"
  by (induction d) auto

lemma fold_dict_set_distinct:
  "distinct (map fst (acc @ items)) \<Longrightarrow> fold (\<lambda>(k, v) d. dict_set d k v) items acc = acc @ items"
proof (induction items arbitrary: acc)
  case Nil
  then show ?case by simp
next
  case (Cons a items)
  obtain k v where a: "a = (k, v)" by (cases a)
  from Cons.prems have f: "k \<notin> fst ` set acc" by (auto simp: a)
  from Cons.prems have "distinct (map fst ((acc @ [(k, v)]) @ items))" by (auto simp: a)
  from Cons.IH [OF this] show ?case by (simp add: a dict_set_fresh [OF f])
qed

lemma format_key_inj: "inj format_key"
  by (rule inj_on_inverseI [where g = "\<lambda>s. the (parse_key s)"]) (simp add: parse_key_format_key)

lemma load_loop_formatted:
  "load_loop acc (map (\<lambda>(k, v). (format_key k, v)) ms)
     = Inr (fold (\<lambda>(k, v) d. dict_set d k v) ms acc)"
  by (induction ms arbitrary: acc) (auto simp: parse_key_format_key)

lemma save_items:
  assumes "distinct (map fst ms)"
  shows "dict_of_items (map (\<lambda>(k, v). (format_key k, v)) ms) = map (\<lambda>(k, v). (format_key k, v)) ms"
proof -
  have e: "map fst (map (\<lambda>(k, v). (format_key k, v)) ms) = map format_key (map fst ms)"
    by (induction ms) auto
  have "inj_on format_key (set (map fst ms))"
    by (rule inj_on_subset [OF format_key_inj]) simp
  with assms have "distinct (map format_key (map fst ms))"
    by (subst distinct_map) (rule conjI)
  then have "distinct (map fst ([] @ map (\<lambda>(k, v). (format_key k, v)) ms))"
    unfolding append_Nil e .
  from fold_dict_set_distinct [OF this] show ?thesis by (simp add: dict_of_items_def)
qed

lemma load_loop_saved:
  assumes "distinct (map fst ms)"
  shows "load_loop [] (dict_of_items (map (\<lambda>(k, v). (format_key k, v)) ms)) = Inr ms"
proof -
  from assms have "distinct (map fst ([] @ ms))" by simp
  from fold_dict_set_distinct [OF this] show ?thesis
    by (simp add: save_items [OF assms] load_loop_formatted)
qed

lemma py_str_chars: "c \<in> set (py_str i) \<Longrightarrow> c \<in> set ''0123456789-''"
proof -
  assume c: "c \<in> set (py_str i)"
  have d: "x \<in> set (nat_digits n) \<Longrightarrow> x \<in> set ''0123456789-''" for x n
  proof -
    assume "x \<in> set (nat_digits n)"
    with nat_digits_decimal [of n] have "x \<in> set ''0123456789''" by blast
    then show ?thesis by auto
  qed
  show ?thesis
  proof (cases "i < 0")
    case True
    with c have "c = CHR ''-'' \<or> c \<in> set (nat_digits (nat (- i)))" by (simp add: py_str_def)
    with d show ?thesis by fastforce
  next
    case False
    with c have "c \<in> set (nat_digits (nat i))" by (simp add: py_str_def)
    then show ?thesis by (rule d)
  qed
qed

lemma format_key_chars: "c \<in> set (format_key k) \<Longrightarrow> c \<in> set ''0123456789-,''"
proof -
  assume "c \<in> set (format_key k)"
  then have "c \<in> set (py_str (fst k)) \<or> c = CHR '','' \<or> c \<in> set (py_str (snd k))"
    by (auto simp: format_key_def)
  moreover have "x \<in> set ''0123456789-'' \<Longrightarrow> x \<in> set ''0123456789-,''" for x by auto
  moreover have "CHR '','' \<in> set ''0123456789-,''" by simp
  ultimately show ?thesis using py_str_chars by blast
qed

lemma build_loop_first_undefined:
  "dom v = {0..255} \<union> set known \<Longrightarrow>
     (case first_undefined known rest of
        Some x \<Rightarrow> build_loop v rest = Inl (KeyError x)
      | None \<Rightarrow> (\<exists>v'. build_loop v rest = Inr v'))"
proof (induction rest arbitrary: v known)
  case Nil
  then show ?case by simp
next
  case (Cons r rest)
  obtain p0 p1 idx where r: "r = ((p0, p1), idx)" by (cases r) auto
  have d: "(v x = None) = (\<not> (0 \<le> x \<and> x < 256) \<and> x \<notin> set known)" for x
  proof -
    have "(v x = None) = (x \<notin> dom v)" by (simp add: domIff)
    then show ?thesis unfolding Cons.prems by auto
  qed
  show ?case
  proof (cases "v p0")
    case None
    with d [of p0] show ?thesis by (simp add: r)
  next
    case s0: (Some b0)
    show ?thesis
    proof (cases "v p1")
      case None
      with s0 d [of p0] d [of p1] show ?thesis by (auto simp: r)
    next
      case s1: (Some b1)
      have step: "build_loop v (r # rest) = build_loop (v(idx \<mapsto> b0 @ b1)) rest"
        using s0 s1 by (simp add: r)
      have scan: "first_undefined known (r # rest) = first_undefined (idx # known) rest"
        using s0 s1 d [of p0] d [of p1] by (auto simp: r)
      have "dom (v(idx \<mapsto> b0 @ b1)) = {0..255} \<union> set (idx # known)"
        using Cons.prems by auto
      from Cons.IH [OF this] show ?thesis unfolding step scan .
    qed
  qed
qed

lemma BPEEncoder_first_undefined:
  "(case first_undefined [] (sorted_merges ms) of
      Some x \<Rightarrow> BPEEncoder ms vs = Inl (KeyError x)
    | None \<Rightarrow> (\<exists>v. BPEEncoder ms vs = Inr \<lparr>merges = ms, vocab_size = vs, vocab = v\<rparr>))"
proof -
  have "dom base_vocab = {0..255} \<union> set []" by (simp add: dom_base_vocab)
  from build_loop_first_undefined [OF this, of "sorted_merges ms"] show ?thesis
    by (auto simp: BPEEncoder_def build_vocab_def split: option.splits)
qed

lemma load_loop_bad_key:
  "list_ex (\<lambda>e. parse_key (fst e) = None) es \<Longrightarrow> load_loop acc es = Inl ValueError"
proof (induction es arbitrary: acc)
  case Nil
  then show ?case by simp
next
  case (Cons e es)
  obtain k v where e: "e = (k, v)" by (cases e)
  show ?case
  proof (cases "parse_key k")
    case None
    then show ?thesis by (simp add: e)
  next
    case (Some pair)
    with Cons.prems have "list_ex (\<lambda>e. parse_key (fst e) = None) es" by (simp add: e)
    from Cons.IH [OF this] Some show ?thesis by (simp add: e)
  qed
qed

lemma load_loop_good_keys:
  "list_all (\<lambda>e. parse_key (fst e) \<noteq> None) es \<Longrightarrow>
     load_loop acc es
       = Inr (fold (\<lambda>(k, v) d. dict_set d k v) (map (\<lambda>e. (the (parse_key (fst e)), snd e)) es) acc)"
  by (induction es arbitrary: acc) auto

lemma dict_get_dict_set: "dict_get (dict_set d k v) k' = (if k' = k then Some v else dict_get d k')"
  by (induction d) (auto simp: dict_get_def)

lemma dict_set_keys_distinct:
  "distinct (map fst d) \<Longrightarrow> distinct (map fst (dict_set d k v))"
proof (induction d)
  case Nil
  then show ?case by simp
next
  case (Cons a d)
  obtain k' v' where a: "a = (k', v')" by (cases a)
  show ?case
  proof (cases "k' = k")
    case True
    with Cons.prems show ?thesis by (simp add: a)
  next
    case False
    from Cons.prems have "k' \<notin> fst ` set d" and "distinct (map fst d)" by (simp_all add: a)
    with False Cons.IH have "k' \<notin> fst ` set (dict_set d k v)"
      and "distinct (map fst (dict_set d k v))"
      by (simp_all add: dict_set_keys)
    with False show ?thesis by (simp add: a)
  qed
qed

lemma fold_dict_set_keys_distinct:
  "distinct (map fst acc) \<Longrightarrow> distinct (map fst (fold (\<lambda>(k, v) d. dict_set d k v) items acc))"
  by (induction items arbitrary: acc) (auto simp: dict_set_keys_distinct)

lemma dict_get_fold_other:
  "k \<notin> fst ` set items \<Longrightarrow>
     dict_get (fold (\<lambda>(k, v) d. dict_set d k v) items acc) k = dict_get acc k"
  by (induction items arbitrary: acc) (auto simp: dict_get_dict_set)

lemma filter_key_distinct:
  "distinct (map fst d) \<Longrightarrow> dict_get d k = Some v \<Longrightarrow> filter (\<lambda>r. fst r = k) d = [(k, v)]"
proof (induction d)
  case Nil
  then show ?case by (simp add: dict_get_def)
next
  case (Cons a d)
  obtain k' v' where a: "a = (k', v')" by (cases a)
  show ?case
  proof (cases "k' = k")
    case True
    with Cons.prems have "v' = v" and "k \<notin> fst ` set d" by (auto simp: a dict_get_def)
    then have "filter (\<lambda>r. fst r = k) d = []" by (auto simp: filter_empty_conv)
    with True \<open>v' = v\<close> show ?thesis by (simp add: a)
  next
    case False
    with Cons show ?thesis by (simp add: a dict_get_def)
  qed
qed

text \<open>\<open>data.get("vocab_size", 5000)\<close>\<close>

definition default_size :: "int option \<Rightarrow> int" where
  "default_size vs = (case vs of None \<Rightarrow> 5000 | Some s \<Rightarrow> s)"

text \<open>Persisted data: the saved form of \<open>hi_encoder\<close>; two keys for the pair \<open>(1, 2)\<close>; a rule
  whose operands are never defined; a key that is no pair of integers; a result that is a
  base byte; and two rules with one result.\<close>

definition hi_file :: persisted where
  "hi_file =
     \<lparr>p_merges = [(''104,105'', 256), (''256,33'', 257)],
      p_vocab_size = Some 5000, p_num_merges = Some 2\<rparr>"

definition collision_file :: persisted where
  "collision_file =
     \<lparr>p_merges = [(''1,2'', 256), (''3,4'', 257), (''1, 2'', 300)],
      p_vocab_size = None, p_num_merges = Some 3\<rparr>"

definition collision_merges :: merges where
  "collision_merges = [((1, 2), 300), ((3, 4), 257)]"

definition undefined_file :: persisted where
  "undefined_file =
     \<lparr>p_merges = [(''300,301'', 256)], p_vocab_size = Some 5000, p_num_merges = Some 1\<rparr>"

definition malformed_file :: persisted where
  "malformed_file =
     \<lparr>p_merges = [(''1,2'', 256), (''3;4'', 257)], p_vocab_size = Some 5000,
      p_num_merges = Some 2\<rparr>"

definition low_file :: persisted where
  "low_file = \<lparr>p_merges = [(''1,2'', 5)], p_vocab_size = Some 5000, p_num_merges = Some 1\<rparr>"

definition dup_file :: persisted where
  "dup_file =
     \<lparr>p_merges = [(''1,2'', 256), (''3,4'', 256)], p_vocab_size = Some 5000,
      p_num_merges = Some 2\<rparr>"

lemma parse_key_examples:
  "parse_key ''1,2'' = Some (1, 2)" "parse_key ''3,4'' = Some (3, 4)"
  "parse_key ''300,301'' = Some (300, 301)" "parse_key ''3;4'' = None"
  by (simp_all add: parse_key_def py_int_def is_space_def is_digit_def digit_value_def Let_def)

section \<open>Saving and reloading\<close>

text \<open>
  Claim C7. For every encoder whose table has pairwise distinct pairs as keys, as the keys
  of a dictionary are: \<open>save\<close> writes each key as the decimal form of the left number, a
  comma, and the decimal form of the right number, with no character other than digits, the
  minus sign and the comma, and writes the number of rules as \<open>num_merges\<close>; the loop of
  \<open>from_file\<close> on the saved entries gives back the table, entry for entry and in the same
  order; \<open>from_file\<close> on the saved data is the constructor on the same table and size, and so
  returns the encoder itself when the encoder came from the constructor.
\<close>

theorem save_load_roundtrip:
  assumes "distinct (map fst (merges enc))"
  shows "load_loop [] (p_merges (save enc)) = Inr (merges enc)
       \<and> p_merges (save enc)
           = map (\<lambda>r. (py_str (fst (fst r)) @ '','' @ py_str (snd (fst r)), snd r)) (merges enc)
       \<and> list_all (\<lambda>e. list_all (\<lambda>c. c \<in> set ''0123456789-,'') (fst e)) (p_merges (save enc))
       \<and> p_num_merges (save enc) = Some (int (length (merges enc)))
       \<and> from_file (save enc) = BPEEncoder (merges enc) (vocab_size enc)
       \<and> (\<forall>ms vs. BPEEncoder ms vs = Inr enc \<longrightarrow> from_file (save enc) = Inr enc)"
proof -
  have m: "p_merges (save enc) = map (\<lambda>(k, v). (format_key k, v)) (merges enc)"
    by (simp add: save_def save_items [OF assms])
  have l: "load_loop [] (p_merges (save enc)) = Inr (merges enc)"
    by (simp add: save_def load_loop_saved [OF assms])
  have k: "p_merges (save enc)
             = map (\<lambda>r. (py_str (fst (fst r)) @ '','' @ py_str (snd (fst r)), snd r)) (merges enc)"
    unfolding m by (rule map_cong) (auto simp: format_key_def)
  have c: "list_all (\<lambda>e. list_all (\<lambda>c. c \<in> set ''0123456789-,'') (fst e)) (p_merges (save enc))"
    unfolding m list_all_iff using format_key_chars by fastforce
  have n: "p_num_merges (save enc) = Some (int (length (merges enc)))"
    by (simp add: save_def)
  have f: "from_file (save enc) = BPEEncoder (merges enc) (vocab_size enc)"
    using l by (simp add: from_file_def) (simp add: save_def)
  have b: "\<forall>ms vs. BPEEncoder ms vs = Inr enc \<longrightarrow> from_file (save enc) = Inr enc"
  proof (intro allI impI)
    fix ms vs
    assume a: "BPEEncoder ms vs = Inr enc"
    then have "merges enc = ms" and "vocab_size enc = vs"
      by (auto simp: BPEEncoder_def split: sum.splits)
    with a f show "from_file (save enc) = Inr enc" by simp
  qed
  from l k c n f b show ?thesis by (intro conjI)
qed

theorem save_load_roundtrip_witness:
  "distinct (map fst (merges hi_encoder))
   \<and> BPEEncoder hi_merges 5000 = Inr hi_encoder
   \<and> save hi_encoder = hi_file
   \<and> load_loop [] (p_merges hi_file) = Inr hi_merges
   \<and> from_file (save hi_encoder) = Inr hi_encoder"
proof -
  have d: "distinct (map fst (merges hi_encoder))"
    by (simp add: hi_encoder_def hi_merges_def)
  have e: "BPEEncoder hi_merges 5000 = Inr hi_encoder"
    by (simp add: BPEEncoder_def build_hi hi_encoder_def)
  have s: "save hi_encoder = hi_file"
    by (simp add: save_def hi_encoder_def hi_merges_def hi_file_def dict_of_items_def
        format_key_def py_str_def nat_digits.simps digit_char_def)
  from save_load_roundtrip [OF d] e
  have "load_loop [] (p_merges (save hi_encoder)) = Inr (merges hi_encoder)"
    and "from_file (save hi_encoder) = Inr hi_encoder"
    by blast+
  with d e s show ?thesis by (simp add: hi_encoder_def)
qed

section \<open>Two keys for one pair\<close>

text \<open>
  Claim C8. When two entries of the persisted merges mapping have keys that parse to the
  same pair, the second being the last entry for that pair, and every other key parses, the
  loop of \<open>from_file\<close> does not fail: the table it builds holds the pair once, with the value
  of the later entry. \<open>from_file\<close> is then the constructor on this table, and it returns an
  encoder with this table whenever the results of the table are above \<open>255\<close> and distinct and
  its operands are base bytes or lower results.
\<close>

theorem load_duplicate_key_overwrites:
  assumes "parse_key k1 = Some pair" and "parse_key k2 = Some pair"
    and "list_all (\<lambda>e. parse_key (fst e) \<noteq> None) (before @ mid @ after)"
    and "list_all (\<lambda>e. parse_key (fst e) \<noteq> Some pair) after"
  shows "\<exists>ms. load_loop [] (before @ (k1, v1) # mid @ (k2, v2) # after) = Inr ms
           \<and> dict_get ms pair = Some v2
           \<and> filter (\<lambda>r. fst r = pair) ms = [(pair, v2)]
           \<and> from_file \<lparr>p_merges = before @ (k1, v1) # mid @ (k2, v2) # after,
                         p_vocab_size = vs, p_num_merges = n\<rparr>
               = BPEEncoder ms (default_size vs)
           \<and> (results_valid ms \<and> operands_defined ms
                \<longrightarrow> (\<exists>enc. from_file \<lparr>p_merges = before @ (k1, v1) # mid @ (k2, v2) # after,
                                         p_vocab_size = vs, p_num_merges = n\<rparr> = Inr enc
                           \<and> merges enc = ms))"
proof -
  let ?es = "before @ (k1, v1) # mid @ (k2, v2) # after"
  let ?step = "\<lambda>(k, v) d. dict_set d k v"
  let ?parsed = "map (\<lambda>e. (the (parse_key (fst e)), snd e))"
  let ?d = "fold ?step (?parsed (before @ (k1, v1) # mid)) []"
  let ?ms = "fold ?step (?parsed after) (dict_set ?d pair v2)"
  from assms(1-3) have "list_all (\<lambda>e. parse_key (fst e) \<noteq> None) ?es" by simp
  from load_loop_good_keys [OF this, of "[]"] have l: "load_loop [] ?es = Inr ?ms"
    using assms(2) by simp
  have "pair \<notin> fst ` set (?parsed after)"
  proof
    assume "pair \<in> fst ` set (?parsed after)"
    then obtain e where e: "e \<in> set after" "pair = the (parse_key (fst e))" by auto
    from assms(3) e(1) have "parse_key (fst e) \<noteq> None" by (simp add: list_all_iff)
    with e(2) have "parse_key (fst e) = Some pair" by (cases "parse_key (fst e)") simp_all
    with assms(4) e(1) show False by (auto simp: list_all_iff)
  qed
  from dict_get_fold_other [OF this] have g: "dict_get ?ms pair = Some v2"
    by (simp add: dict_get_dict_set)
  have "distinct (map fst ([] :: merges))" by simp
  then have "distinct (map fst ?d)" by (rule fold_dict_set_keys_distinct)
  then have "distinct (map fst (dict_set ?d pair v2))" by (rule dict_set_keys_distinct)
  then have "distinct (map fst ?ms)" by (rule fold_dict_set_keys_distinct)
  from filter_key_distinct [OF this g] have c: "filter (\<lambda>r. fst r = pair) ?ms = [(pair, v2)]" .
  have f: "from_file \<lparr>p_merges = ?es, p_vocab_size = vs, p_num_merges = n\<rparr>
             = BPEEncoder ?ms (default_size vs)"
    using l by (simp add: from_file_def default_size_def)
  have s: "results_valid ?ms \<and> operands_defined ?ms
             \<longrightarrow> (\<exists>enc. from_file \<lparr>p_merges = ?es, p_vocab_size = vs, p_num_merges = n\<rparr> = Inr enc
                        \<and> merges enc = ?ms)"
  proof
    assume "results_valid ?ms \<and> operands_defined ?ms"
    then obtain v where "build_vocab ?ms = Inr v" using build_vocab_succeeds by blast
    then show "\<exists>enc. from_file \<lparr>p_merges = ?es, p_vocab_size = vs, p_num_merges = n\<rparr> = Inr enc
                 \<and> merges enc = ?ms"
      unfolding f by (simp add: BPEEncoder_def)
  qed
  from l g c f s show ?thesis by blast
qed

theorem load_duplicate_key_overwrites_witness:
  "parse_key ''1,2'' = Some (1, 2) \<and> parse_key ''1, 2'' = Some (1, 2)
   \<and> list_all (\<lambda>e. parse_key (fst e) \<noteq> None) ([] @ [(''3,4'', 257)] @ [])
   \<and> list_all (\<lambda>e. parse_key (fst e) \<noteq> Some (1, 2)) []
   \<and> load_loop [] (p_merges collision_file) = Inr collision_merges
   \<and> dict_get collision_merges (1, 2) = Some 300
   \<and> (\<exists>enc. from_file collision_file = Inr enc \<and> merges enc = collision_merges)"
proof -
  have k: "parse_key ''1,2'' = Some (1, 2)" "parse_key ''1, 2'' = Some (1, 2)"
    "parse_key ''3,4'' = Some (3, 4)"
    by (simp_all add: parse_key_def py_int_def is_space_def is_digit_def digit_value_def Let_def)
  have a: "list_all (\<lambda>e. parse_key (fst e) \<noteq> None) ([] @ [(''3,4'', 257)] @ [])"
    "list_all (\<lambda>e. parse_key (fst e) \<noteq> Some (1, 2)) []"
    by (simp_all add: k)
  have l: "load_loop [] (p_merges collision_file) = Inr collision_merges"
    by (simp add: collision_file_def collision_merges_def k)
  have v: "results_valid collision_merges \<and> operands_defined collision_merges"
    by (simp add: results_valid_def operands_defined_def collision_merges_def)
  let ?es = "[] @ (''1,2'', 256) # [(''3,4'', 257)] @ (''1, 2'', 300) # []"
  have l': "load_loop [] ?es = Inr collision_merges"
    using l by (simp add: collision_file_def)
  from load_duplicate_key_overwrites [OF k(1,2) a, of 256 300 None "Some 3"]
  obtain ms where m: "load_loop [] ?es = Inr ms" "dict_get ms (1, 2) = Some 300"
    "results_valid ms \<and> operands_defined ms
       \<longrightarrow> (\<exists>enc. from_file \<lparr>p_merges = ?es, p_vocab_size = None, p_num_merges = Some 3\<rparr>
                     = Inr enc \<and> merges enc = ms)"
    by blast
  from m(1) l' have "ms = collision_merges" by simp
  with m(2,3) v
  have "dict_get collision_merges (1, 2) = Some 300"
    and "\<exists>enc. from_file collision_file = Inr enc \<and> merges enc = collision_merges"
    by (simp_all add: collision_file_def)
  with k a l show ?thesis by simp
qed

section \<open>When loading fails\<close>

text \<open>
  Claim C2. Loading fails in exactly two cases. When some key of the merges mapping does
  not parse into two integers, \<open>from_file\<close> raises \<open>ValueError\<close>. When every key parses, the
  loop builds a table, and \<open>from_file\<close> raises \<open>KeyError\<close> exactly when, in ascending order of
  the results, some rule of that table has an operand that is neither a base byte nor the
  result of a rule before it; otherwise \<open>from_file\<close> returns an encoder with that table. A
  result that occurs twice and a result of at most \<open>255\<close> do not make loading fail, as
  \<open>dup_file\<close> and \<open>low_file\<close> show, and a table of one rule with a result above \<open>255\<close> fails
  to load when an operand is undefined, as \<open>undefined_file\<close> shows.
\<close>

theorem from_file_fails_exactly:
  "(list_ex (\<lambda>e. parse_key (fst e) = None) (p_merges p) \<longrightarrow> from_file p = Inl ValueError)
   \<and> (list_all (\<lambda>e. parse_key (fst e) \<noteq> None) (p_merges p) \<longrightarrow>
        (\<exists>ms. load_loop [] (p_merges p) = Inr ms
           \<and> (case first_undefined [] (sorted_merges ms) of
                Some x \<Rightarrow> from_file p = Inl (KeyError x)
              | None \<Rightarrow>
                  (\<exists>v. from_file p
                         = Inr \<lparr>merges = ms, vocab_size = default_size (p_vocab_size p),
                                vocab = v\<rparr>))))"
proof (intro conjI impI)
  assume "list_ex (\<lambda>e. parse_key (fst e) = None) (p_merges p)"
  from load_loop_bad_key [OF this, of "[]"] show "from_file p = Inl ValueError"
    by (simp add: from_file_def)
next
  assume "list_all (\<lambda>e. parse_key (fst e) \<noteq> None) (p_merges p)"
  from load_loop_good_keys [OF this, of "[]"] obtain ms where
    l: "load_loop [] (p_merges p) = Inr ms" by blast
  then have f: "from_file p = BPEEncoder ms (default_size (p_vocab_size p))"
    by (simp add: from_file_def default_size_def)
  from BPEEncoder_first_undefined [of ms "default_size (p_vocab_size p)"] l
  show "\<exists>ms. load_loop [] (p_merges p) = Inr ms
           \<and> (case first_undefined [] (sorted_merges ms) of
                Some x \<Rightarrow> from_file p = Inl (KeyError x)
              | None \<Rightarrow>
                  (\<exists>v. from_file p
                         = Inr \<lparr>merges = ms, vocab_size = default_size (p_vocab_size p),
                                vocab = v\<rparr>))"
    unfolding f by blast
qed

theorem from_file_fails_exactly_witness:
  "list_ex (\<lambda>e. parse_key (fst e) = None) (p_merges malformed_file)
   \<and> from_file malformed_file = Inl ValueError
   \<and> list_all (\<lambda>e. parse_key (fst e) \<noteq> None) (p_merges undefined_file)
   \<and> load_loop [] (p_merges undefined_file) = Inr [((300, 301), 256)]
   \<and> first_undefined [] (sorted_merges [((300, 301), 256)]) = Some 300
   \<and> from_file undefined_file = Inl (KeyError 300)"
proof -
  have b: "list_ex (\<lambda>e. parse_key (fst e) = None) (p_merges malformed_file)"
    by (simp add: malformed_file_def parse_key_examples)
  have g: "list_all (\<lambda>e. parse_key (fst e) \<noteq> None) (p_merges undefined_file)"
    by (simp add: undefined_file_def parse_key_examples)
  have l: "load_loop [] (p_merges undefined_file) = Inr [((300, 301), 256)]"
    by (simp add: undefined_file_def parse_key_examples)
  have u: "first_undefined [] (sorted_merges [((300, 301), 256)]) = Some 300"
    by (simp add: sorted_merges_def)
  from from_file_fails_exactly [of malformed_file] b
  have v: "from_file malformed_file = Inl ValueError" by blast
  from from_file_fails_exactly [of undefined_file] g obtain ms where
    m: "load_loop [] (p_merges undefined_file) = Inr ms"
      "case first_undefined [] (sorted_merges ms) of
         Some x \<Rightarrow> from_file undefined_file = Inl (KeyError x)
       | None \<Rightarrow>
           (\<exists>v. from_file undefined_file
                  = Inr \<lparr>merges = ms, vocab_size = default_size (p_vocab_size undefined_file),
                         vocab = v\<rparr>)"
    by blast
  from m(1) l have "ms = [((300, 301), 256)]" by simp
  with m(2) u have "from_file undefined_file = Inl (KeyError 300)" by simp
  with b g l u v show ?thesis by (intro conjI)
qed

theorem from_file_accepts_invalid_results_counterexample:
  "p_merges low_file = [(''1,2'', 5)]
   \<and> from_file low_file = Inr \<lparr>merges = low_merges, vocab_size = 5000, vocab = low_vocab\<rparr>
   \<and> p_merges dup_file = [(''1,2'', 256), (''3,4'', 256)]
   \<and> from_file dup_file = Inr dup_encoder
   \<and> p_merges undefined_file = [(''300,301'', 256)]
   \<and> parse_key ''300,301'' = Some (300, 301)
   \<and> from_file undefined_file = Inl (KeyError 300)"
proof -
  have "from_file low_file = Inr \<lparr>merges = low_merges, vocab_size = 5000, vocab = low_vocab\<rparr>"
    using build_low
    by (simp add: from_file_def low_file_def parse_key_examples BPEEncoder_def low_vocab_def
        low_merges_def)
  moreover have "from_file dup_file = Inr dup_encoder"
    using build_dup
    by (simp add: from_file_def dup_file_def parse_key_examples BPEEncoder_def dup_encoder_def
        dup_merges_def)
  moreover have "from_file undefined_file = Inl (KeyError 300)"
    by (simp add: from_file_def undefined_file_def parse_key_examples BPEEncoder_def
        build_vocab_def sorted_merges_def base_vocab_def)
  ultimately show ?thesis
    by (simp add: low_file_def dup_file_def undefined_file_def parse_key_examples)
qed

end
